theory Spec2Isabelle
  imports
    Complex_Main
    "HOL-Library.Product_Lexorder"
    "HOL-Library.Sublist"
    "HOL-Library.Multiset"
begin

section \<open>Data model\<close>

text \<open>
  The scripts pass OCR results around as Python dicts.  One recognised token (and, later,
  one phrase or label) is a dict with the keys \<^verbatim>\<open>text\<close>, \<^verbatim>\<open>confidence\<close>, \<^verbatim>\<open>x\<close>, \<^verbatim>\<open>y\<close>
  and, where the producer supplies them, \<^verbatim>\<open>width\<close> and \<^verbatim>\<open>height\<close>; the grouping code reads
  the last two with \<^verbatim>\<open>.get('width', 0)\<close>, so they are optional here.  Every other key a
  dict may carry (\<^verbatim>\<open>scan\<close>, \<^verbatim>\<open>scan_mode\<close>, ...) lives in the record's extension.
  The field for key \<^verbatim>\<open>k\<close> is written \<open>t_k\<close>.  Python floats are modelled as real numbers.
\<close>

record text_item =
  t_text :: string
  t_confidence :: real
  t_x :: real
  t_y :: real
  t_width :: "real option"
  t_height :: "real option"

datatype py_error = IndexError | KeyError | ValueError | TypeError | AttributeError | ZeroDivisionError

text \<open>\<^verbatim>\<open>d.get(key, 0)\<close> on an optional numeric key.\<close>

definition get0 :: "real option \<Rightarrow> real" where
  "get0 v = (case v of None \<Rightarrow> 0 | Some r \<Rightarrow> r)"

section \<open>Duplicate reduction (run\_multi\_scan.py, deduplication\_demo.py)\<close>

text \<open>Python's \<^verbatim>\<open>s in t\<close> on strings: \<open>s\<close> occurs in \<open>t\<close> as a contiguous run.\<close>

fun str_in :: "'a list \<Rightarrow> 'a list \<Rightarrow> bool" where
  "str_in s [] = (s = [])"
| "str_in s (c # cs) = (prefix s (c # cs) \<or> str_in s cs)"

text \<open>
  \<^verbatim>\<open>
  def text_similarity(text1, text2):
      if text1 == text2: return 1.0
      if text1 in text2 or text2 in text1: return 0.8
      common = sum(1 for c in text1 if c in text2)
      max_len = max(len(text1), len(text2))
      return common / max_len if max_len > 0 else 0
  \<close>
\<close>

definition text_similarity :: "'a list \<Rightarrow> 'a list \<Rightarrow> real" where
  "text_similarity text1 text2 =
     (if text1 = text2 then 1
      else if str_in text1 text2 \<or> str_in text2 text1 then 8 / 10
      else (let common = sum_list (map (\<lambda>c. 1::nat) (filter (\<lambda>c. c \<in> set text2) text1));
                max_len = max (length text1) (length text2)
            in if max_len > 0 then real common / real max_len else 0))"

definition calculate_distance :: "'m text_item_scheme \<Rightarrow> 'm text_item_scheme \<Rightarrow> real" where
  "calculate_distance t1 t2 = sqrt ((t_x t1 - t_x t2)\<^sup>2 + (t_y t1 - t_y t2)\<^sup>2)"

text \<open>
  The inner loop of \<^verbatim>\<open>deduplicate_texts\<close>: one step for the pair \<open>(j, text2)\<close> of
  \<^verbatim>\<open>enumerate(texts)\<close>, on the state \<open>(grp, used)\<close>.
\<close>

definition dedup_inner_step ::
  "real \<Rightarrow> real \<Rightarrow> 'm text_item_scheme \<Rightarrow> nat \<times> 'm text_item_scheme \<Rightarrow>
   'm text_item_scheme list \<times> nat set \<Rightarrow> 'm text_item_scheme list \<times> nat set" where
  "dedup_inner_step position_threshold similarity_threshold text1 jt st =
     (case jt of (j, text2) \<Rightarrow> case st of (grp, used) \<Rightarrow>
        if j \<in> used then (grp, used)
        else if calculate_distance text1 text2 < position_threshold then
          (if text_similarity (t_text text1) (t_text text2) \<ge> similarity_threshold
           then (grp @ [text2], insert j used) else (grp, used))
        else (grp, used))"

text \<open>The outer loop: one step for \<open>(i, text1)\<close>, on the state \<open>(groups, used)\<close>.\<close>

definition dedup_outer_step ::
  "real \<Rightarrow> real \<Rightarrow> 'm text_item_scheme list \<Rightarrow> nat \<times> 'm text_item_scheme \<Rightarrow>
   'm text_item_scheme list list \<times> nat set \<Rightarrow> 'm text_item_scheme list list \<times> nat set" where
  "dedup_outer_step position_threshold similarity_threshold texts it st =
     (case it of (i, text1) \<Rightarrow> case st of (groups, used) \<Rightarrow>
        if i \<in> used then (groups, used)
        else (case fold (dedup_inner_step position_threshold similarity_threshold text1)
                        (enumerate 0 texts) ([text1], insert i used) of
                (grp, used') \<Rightarrow> (groups @ [grp], used')))"

definition dedup_groups ::
  "'m text_item_scheme list \<Rightarrow> real \<Rightarrow> real \<Rightarrow> 'm text_item_scheme list list" where
  "dedup_groups texts position_threshold similarity_threshold =
     fst (fold (dedup_outer_step position_threshold similarity_threshold texts)
               (enumerate 0 texts) ([], {}))"

text \<open>
  Python's \<^verbatim>\<open>max(group, key=f)\<close>: the first element whose key is maximal; \<^verbatim>\<open>ValueError\<close> on
  an empty sequence.
\<close>

definition py_max_key :: "('a \<Rightarrow> 'k::linorder) \<Rightarrow> 'a list \<Rightarrow> py_error + 'a" where
  "py_max_key f xs =
     (case xs of [] \<Rightarrow> Inl ValueError
      | y # ys \<Rightarrow> Inr (fold (\<lambda>z best. if f best < f z then z else best) ys y))"

text \<open>A loop whose body may raise: the first error ends it.\<close>

fun map_result :: "('a \<Rightarrow> 'e + 'b) \<Rightarrow> 'a list \<Rightarrow> 'e + 'b list" where
  "map_result f [] = Inr []"
| "map_result f (a # as) =
     (case f a of Inl e \<Rightarrow> Inl e
      | Inr b \<Rightarrow> (case map_result f as of Inl e \<Rightarrow> Inl e | Inr bs \<Rightarrow> Inr (b # bs)))"

text \<open>The key of the selection: \<^verbatim>\<open>(t['confidence'], len(t['text']))\<close>, compared as a tuple.\<close>

definition best_key :: "'m text_item_scheme \<Rightarrow> real \<times> nat" where
  "best_key t = (t_confidence t, length (t_text t))"

definition deduplicate_texts ::
  "'m text_item_scheme list \<Rightarrow> real \<Rightarrow> real \<Rightarrow> py_error + 'm text_item_scheme list" where
  "deduplicate_texts texts position_threshold similarity_threshold =
     map_result (py_max_key best_key) (dedup_groups texts position_threshold similarity_threshold)"

text \<open>The two reports of \<^verbatim>\<open>BOILER RM\<close> of deduplication\_demo.py.\<close>

definition boiler1 :: text_item where
  "boiler1 = \<lparr>t_text = ''BOILER RM'', t_confidence = 96, t_x = 26495 / 10, t_y = 1893 / 10,
              t_width = None, t_height = None\<rparr>"

definition boiler2 :: text_item where
  "boiler2 = \<lparr>t_text = ''BOILER RM'', t_confidence = 92, t_x = 26502 / 10, t_y = 1898 / 10,
              t_width = None, t_height = None\<rparr>"

text \<open>
  Both greedy loops of the scripts (the inner loop above, and the inner loop of the multiline
  joiner) have one shape: an item that is not yet used and passes a test is appended to the
  group and marked used.  This is that shape, for the proofs.
\<close>

definition absorb_step :: "(nat \<Rightarrow> 'a \<Rightarrow> bool) \<Rightarrow> nat \<times> 'a \<Rightarrow> 'a list \<times> nat set \<Rightarrow> 'a list \<times> nat set" where
  "absorb_step ok jt st = (case jt of (j, t) \<Rightarrow> case st of (grp, used) \<Rightarrow>
      if j \<notin> used \<and> ok j t then (grp @ [t], insert j used) else (grp, used))"

text \<open>The test of the inner loop: near enough, and similar enough.\<close>

definition dedup_match :: "real \<Rightarrow> real \<Rightarrow> 'm text_item_scheme \<Rightarrow> 'm text_item_scheme \<Rightarrow> bool" where
  "dedup_match p s t1 t2 \<longleftrightarrow> calculate_distance t1 t2 < p \<and> s \<le> text_similarity (t_text t1) (t_text t2)"



section \<open>Single-pass grouping (ocr\_server.py)\<close>

text \<open>
  The server's OCR texts carry display coordinates beside the page coordinates; the phrase
  it builds has the keys \<^verbatim>\<open>text\<close>, \<^verbatim>\<open>confidence\<close>, \<^verbatim>\<open>x\<close>, \<^verbatim>\<open>y\<close>, \<^verbatim>\<open>display_x\<close>,
  \<^verbatim>\<open>display_y\<close> and \<^verbatim>\<open>word_count\<close>, and neither \<^verbatim>\<open>width\<close> nor \<^verbatim>\<open>height\<close>.
\<close>

record ocr_text = text_item +
  t_display_x :: "real option"
  t_display_y :: "real option"

record server_phrase = ocr_text +
  t_word_count :: nat

text \<open>
  The line loop of \<^verbatim>\<open>group_texts_into_phrases\<close>:
  \<^verbatim>\<open>
  for text in texts:
      if not current_line:
          current_line.append(text)
      else:
          if abs(text['y'] - current_line[-1]['y']) <= y_tolerance:
              current_line.append(text)
          else:
              if current_line:
                  lines.append(current_line)
              current_line = [text]
  if current_line:
      lines.append(current_line)
  \<close>
\<close>

definition line_step ::
  "real \<Rightarrow> 'm text_item_scheme \<Rightarrow> 'm text_item_scheme list list \<times> 'm text_item_scheme list \<Rightarrow>
   'm text_item_scheme list list \<times> 'm text_item_scheme list" where
  "line_step y_tolerance t st =
     (case st of (lines, current_line) \<Rightarrow>
        if current_line = [] then (lines, current_line @ [t])
        else if \<bar>t_y t - t_y (last current_line)\<bar> \<le> y_tolerance then (lines, current_line @ [t])
        else ((if current_line \<noteq> [] then lines @ [current_line] else lines), [t]))"

definition flush :: "'a list list \<times> 'a list \<Rightarrow> 'a list list" where
  "flush st = (case st of (lines, current_line) \<Rightarrow>
                 if current_line \<noteq> [] then lines @ [current_line] else lines)"

definition group_lines :: "real \<Rightarrow> 'm text_item_scheme list \<Rightarrow> 'm text_item_scheme list list" where
  "group_lines y_tolerance texts = flush (fold (line_step y_tolerance) texts ([], []))"

text \<open>
  The phrase loop, for one line already sorted by \<^verbatim>\<open>x\<close>.  \<^verbatim>\<open>current_phrase = [line[0]]\<close>
  raises \<^verbatim>\<open>IndexError\<close> on an empty line.
\<close>

definition x_gap :: "'m text_item_scheme \<Rightarrow> 'm text_item_scheme \<Rightarrow> real" where
  "x_gap prev_text curr_text = t_x curr_text - (t_x prev_text + get0 (t_width prev_text))"

definition phrase_step ::
  "real \<Rightarrow> 'm text_item_scheme \<Rightarrow> 'm text_item_scheme list list \<times> 'm text_item_scheme list \<Rightarrow>
   'm text_item_scheme list list \<times> 'm text_item_scheme list" where
  "phrase_step x_tolerance t st =
     (case st of (phrase_groups, current_phrase) \<Rightarrow>
        if x_gap (last current_phrase) t \<le> x_tolerance then (phrase_groups, current_phrase @ [t])
        else (phrase_groups @ [current_phrase], [t]))"

definition phrase_groups_of ::
  "real \<Rightarrow> 'm text_item_scheme list \<Rightarrow> py_error + 'm text_item_scheme list list" where
  "phrase_groups_of x_tolerance line =
     (case line of [] \<Rightarrow> Inl IndexError
      | w # ws \<Rightarrow> Inr (flush (fold (phrase_step x_tolerance) ws ([], [w]))))"

text \<open>Python's \<^verbatim>\<open>' '.join(parts)\<close>.\<close>

fun join_sp :: "string list \<Rightarrow> string" where
  "join_sp [] = []"
| "join_sp [a] = a"
| "join_sp (a # b # bs) = a @ '' '' @ join_sp (b # bs)"

text \<open>
  The phrase entry of one group.  \<^verbatim>\<open>sum(...) / len(group)\<close> raises on an empty group.
\<close>

definition server_phrase_entry :: "'m ocr_text_scheme list \<Rightarrow> py_error + server_phrase" where
  "server_phrase_entry grp =
     (case grp of [] \<Rightarrow> Inl ZeroDivisionError
      | g0 # _ \<Rightarrow> Inr
         \<lparr>t_text = join_sp (map t_text grp),
          t_confidence = sum_list (map t_confidence grp) / real (length grp),
          t_x = t_x g0,
          t_y = t_y g0,
          t_width = None,
          t_height = None,
          t_display_x = Some (case t_display_x g0 of None \<Rightarrow> t_x g0 | Some d \<Rightarrow> d),
          t_display_y = Some (case t_display_y g0 of None \<Rightarrow> t_y g0 | Some d \<Rightarrow> d),
          t_word_count = length grp\<rparr>)"

text \<open>One line: \<^verbatim>\<open>line.sort(key=lambda t: t['x'])\<close>, the phrase loop, the entries.\<close>

definition line_phrases :: "real \<Rightarrow> 'm ocr_text_scheme list \<Rightarrow> py_error + server_phrase list" where
  "line_phrases x_tolerance line =
     (case phrase_groups_of x_tolerance (sort_key t_x line) of
        Inl e \<Rightarrow> Inl e
      | Inr phrase_groups \<Rightarrow> map_result server_phrase_entry phrase_groups)"

definition group_texts_into_phrases ::
  "'m ocr_text_scheme list \<Rightarrow> real \<Rightarrow> real \<Rightarrow> py_error + server_phrase list" where
  "group_texts_into_phrases texts y_tolerance x_tolerance =
     (if texts = [] then Inr []
      else (case map_result (line_phrases x_tolerance)
                   (group_lines y_tolerance (sort_key (\<lambda>t. (t_y t, t_x t)) texts)) of
              Inl e \<Rightarrow> Inl e
            | Inr pss \<Rightarrow> Inr (concat pss)))"

text \<open>
  For the proofs.  The line loop and the phrase loop are one loop: an item joins the
  current group when it is linked to the last item of that group, and starts a new group
  otherwise.  \<open>group_no gs k\<close> is the number of the group that holds position \<open>k\<close> of the
  concatenation of \<open>gs\<close>.
\<close>

definition chain_step :: "('a \<Rightarrow> 'a \<Rightarrow> bool) \<Rightarrow> 'a \<Rightarrow> 'a list list \<times> 'a list \<Rightarrow> 'a list list \<times> 'a list" where
  "chain_step linked t st =
     (case st of (gs, cur) \<Rightarrow>
        if cur = [] then (gs, [t])
        else if linked (last cur) t then (gs, cur @ [t])
        else (gs @ [cur], [t]))"

definition chain_groups :: "('a \<Rightarrow> 'a \<Rightarrow> bool) \<Rightarrow> 'a list \<Rightarrow> 'a list list" where
  "chain_groups linked xs = flush (fold (chain_step linked) xs ([], []))"

fun group_no :: "'a list list \<Rightarrow> nat \<Rightarrow> nat" where
  "group_no [] k = 0"
| "group_no (g # gs) k = (if k < length g then 0 else Suc (group_no gs (k - length g)))"

text \<open>The two links: vertically within the tolerance, horizontally within the gap.\<close>

definition y_linked :: "real \<Rightarrow> 'm text_item_scheme \<Rightarrow> 'm text_item_scheme \<Rightarrow> bool" where
  "y_linked tol a b \<longleftrightarrow> \<bar>t_y b - t_y a\<bar> \<le> tol"

definition x_linked :: "real \<Rightarrow> 'm text_item_scheme \<Rightarrow> 'm text_item_scheme \<Rightarrow> bool" where
  "x_linked tol a b \<longleftrightarrow> x_gap a b \<le> tol"

text \<open>Three words on a staircase, for the chained comparison; two words of a line out of order.\<close>

definition stair :: "real \<Rightarrow> ocr_text" where
  "stair v = \<lparr>t_text = ''W'', t_confidence = 90, t_x = 10 * v, t_y = 10 * v,
              t_width = Some 5, t_height = Some 8, t_display_x = None, t_display_y = None\<rparr>"

definition word_at :: "string \<Rightarrow> real \<Rightarrow> real \<Rightarrow> real \<Rightarrow> ocr_text" where
  "word_at s vx vy w = \<lparr>t_text = s, t_confidence = 90, t_x = vx, t_y = vy,
              t_width = Some w, t_height = Some 8, t_display_x = None, t_display_y = None\<rparr>"

text \<open>
  What the server's phrase entry records of its group: the joined text, the position of the
  first word, the word count, and no extent.
\<close>

definition anchored :: "'m ocr_text_scheme list \<Rightarrow> server_phrase \<Rightarrow> bool" where
  "anchored g p \<longleftrightarrow>
     g \<noteq> [] \<and> t_text p = join_sp (map t_text g) \<and> t_x p = t_x (hd g) \<and> t_y p = t_y (hd g) \<and>
     t_width p = None \<and> t_height p = None \<and> t_word_count p = length g"

text \<open>\<^verbatim>\<open>BOILER\<close> from 10 to 50, and \<^verbatim>\<open>RM\<close> at 60: a gap of exactly 10.\<close>

definition boiler_word :: ocr_text where "boiler_word = word_at ''BOILER'' 10 100 40"

definition rm_word :: ocr_text where "rm_word = word_at ''RM'' 60 100 20"

text \<open>
  The same, with the fact that the first word of a group is its leftmost: the phrase's \<open>x\<close>
  is the least \<open>x\<close> of the group.  Nothing of the kind holds for \<open>y\<close>.
\<close>

definition anchored_min :: "'m ocr_text_scheme list \<Rightarrow> server_phrase \<Rightarrow> bool" where
  "anchored_min g p \<longleftrightarrow> anchored g p \<and> t_x p = Min (t_x ` set g)"

text \<open>\<^verbatim>\<open>MECH\<close> at (0, 5) and, a little higher and to the right, \<^verbatim>\<open>RM\<close> at (40, 0).\<close>

definition mech_w :: ocr_text where "mech_w = word_at ''MECH'' 0 5 30"

definition rm_w :: ocr_text where "rm_w = word_at ''RM'' 40 0 20"

section \<open>Multi-pass grouping (enhanced\_multiline\_ocr.py)\<close>

text \<open>
  The phrase entry of \<^verbatim>\<open>group_multiline_texts\<close> adds the keys \<^verbatim>\<open>word_count\<close>,
  \<^verbatim>\<open>y_tolerance\<close> and \<^verbatim>\<open>indices\<close> (fields \<open>m_word_count\<close>, \<open>m_y_tolerance\<close>, \<open>m_indices\<close>);
  its \<^verbatim>\<open>width\<close> and \<^verbatim>\<open>height\<close> are always present.  The loops work on pairs \<open>(i, text)\<close>
  of \<^verbatim>\<open>enumerate(texts)\<close>.
\<close>

record ml_phrase = text_item +
  m_word_count :: nat
  m_y_tolerance :: int
  m_indices :: "nat list"

text \<open>
  The line loop of one pass:
  \<^verbatim>\<open>
  for i, text in enumerate(texts):
      if i in used_indices: continue
      if not current_line:
          current_line.append((i, text))
      else:
          last_text = current_line[-1][1]
          if abs(text['y'] - last_text['y']) <= y_tolerance:
              current_line.append((i, text))
          else:
              if current_line: lines.append(current_line)
              current_line = [(i, text)]
  if current_line: lines.append(current_line)
  \<close>
\<close>

definition ml_line_step ::
  "int \<Rightarrow> nat set \<Rightarrow> nat \<times> 'm text_item_scheme \<Rightarrow>
   (nat \<times> 'm text_item_scheme) list list \<times> (nat \<times> 'm text_item_scheme) list \<Rightarrow>
   (nat \<times> 'm text_item_scheme) list list \<times> (nat \<times> 'm text_item_scheme) list" where
  "ml_line_step y_tolerance used_indices it st =
     (case it of (i, t) \<Rightarrow> case st of (lines, current_line) \<Rightarrow>
        if i \<in> used_indices then (lines, current_line)
        else if current_line = [] then (lines, current_line @ [(i, t)])
        else (let last_text = snd (last current_line) in
              if \<bar>t_y t - t_y last_text\<bar> \<le> real_of_int y_tolerance
              then (lines, current_line @ [(i, t)])
              else ((if current_line \<noteq> [] then lines @ [current_line] else lines), [(i, t)])))"

definition ml_lines ::
  "int \<Rightarrow> nat set \<Rightarrow> 'm text_item_scheme list \<Rightarrow> (nat \<times> 'm text_item_scheme) list list" where
  "ml_lines y_tolerance used_indices texts =
     flush (fold (ml_line_step y_tolerance used_indices) (enumerate 0 texts) ([], []))"

text \<open>The phrase loop over the unused words of a line, from \<^verbatim>\<open>[unused_in_line[0]]\<close>.\<close>

definition ml_phrase_step ::
  "real \<Rightarrow> nat \<times> 'm text_item_scheme \<Rightarrow>
   (nat \<times> 'm text_item_scheme) list list \<times> (nat \<times> 'm text_item_scheme) list \<Rightarrow>
   (nat \<times> 'm text_item_scheme) list list \<times> (nat \<times> 'm text_item_scheme) list" where
  "ml_phrase_step x_tolerance item st =
     (case st of (phrase_groups, current_phrase) \<Rightarrow>
        (let prev_text = snd (last current_phrase); curr_text = snd item in
         if x_gap prev_text curr_text \<le> x_tolerance then (phrase_groups, current_phrase @ [item])
         else ((if current_phrase \<noteq> [] then phrase_groups @ [current_phrase] else phrase_groups),
               [item])))"

text \<open>
  The entry of a group with first item \<open>g0\<close>: Python's \<^verbatim>\<open>min\<close> and \<^verbatim>\<open>max\<close> over the group,
  as the loops they are.
\<close>

definition ml_phrase_entry :: "int \<Rightarrow> (nat \<times> 'm text_item_scheme) list \<Rightarrow> ml_phrase" where
  "ml_phrase_entry y_tolerance grp =
     (let ws = map snd grp;
          min_x = fold min (map t_x (tl ws)) (t_x (hd ws));
          min_y = fold min (map t_y (tl ws)) (t_y (hd ws));
          max_x = fold max (map (\<lambda>w. t_x w + get0 (t_width w)) (tl ws))
                    (t_x (hd ws) + get0 (t_width (hd ws)));
          max_y = fold max (map (\<lambda>w. t_y w + get0 (t_height w)) (tl ws))
                    (t_y (hd ws) + get0 (t_height (hd ws)))
      in \<lparr>t_text = join_sp (map t_text ws),
          t_confidence = sum_list (map t_confidence ws) / real (length grp),
          t_x = min_x,
          t_y = min_y,
          t_width = Some (max_x - min_x),
          t_height = Some (max_y - min_y),
          m_word_count = length grp,
          m_y_tolerance = y_tolerance,
          m_indices = map fst grp\<rparr>)"

text \<open>
  \<^verbatim>\<open>
  for group in phrase_groups:
      if not group: continue
      ... pass_phrases.append(phrase_entry)
      for item in group: used_indices.add(item[0])
  \<close>
\<close>

definition ml_emit ::
  "int \<Rightarrow> (nat \<times> 'm text_item_scheme) list \<Rightarrow> ml_phrase list \<times> nat set \<Rightarrow> ml_phrase list \<times> nat set" where
  "ml_emit y_tolerance grp st =
     (case st of (pass_phrases, used_indices) \<Rightarrow>
        if grp = [] then (pass_phrases, used_indices)
        else (pass_phrases @ [ml_phrase_entry y_tolerance grp],
              fold (\<lambda>item used. insert (fst item) used) grp used_indices))"

definition ml_process_line ::
  "int \<Rightarrow> real \<Rightarrow> (nat \<times> 'm text_item_scheme) list \<Rightarrow> ml_phrase list \<times> nat set \<Rightarrow>
   ml_phrase list \<times> nat set" where
  "ml_process_line y_tolerance x_tolerance line0 st =
     (case st of (pass_phrases, used_indices) \<Rightarrow>
        (let line = sort_key (\<lambda>item. t_x (snd item)) line0 in
         if list_all (\<lambda>item. fst item \<in> used_indices) line then (pass_phrases, used_indices)
         else (case filter (\<lambda>item. fst item \<notin> used_indices) line of
                 [] \<Rightarrow> (pass_phrases, used_indices)
               | u0 # us \<Rightarrow>
                   fold (ml_emit y_tolerance)
                     (flush (fold (ml_phrase_step x_tolerance) us ([], [u0])))
                     (pass_phrases, used_indices))))"

definition ml_pass ::
  "real \<Rightarrow> 'm text_item_scheme list \<Rightarrow> int \<Rightarrow> ml_phrase list \<times> nat set \<Rightarrow> ml_phrase list \<times> nat set" where
  "ml_pass x_tolerance texts y_tolerance st =
     (case st of (all_phrases, used_indices) \<Rightarrow>
        (case fold (ml_process_line y_tolerance x_tolerance)
                   (ml_lines y_tolerance used_indices texts) ([], used_indices) of
           (pass_phrases, used') \<Rightarrow> (all_phrases @ pass_phrases, used')))"

text \<open>\<^verbatim>\<open>range(hi, lo - 1, -1)\<close>: the integers from \<open>hi\<close> down to \<open>lo\<close>.\<close>

definition range_down :: "int \<Rightarrow> int \<Rightarrow> int list" where
  "range_down hi lo = rev [lo..hi]"

definition sorted_texts :: "'m text_item_scheme list \<Rightarrow> 'm text_item_scheme list" where
  "sorted_texts texts = sort_key (\<lambda>t. (t_y t, t_x t)) texts"

definition group_multiline_run ::
  "'m text_item_scheme list \<Rightarrow> int \<times> int \<Rightarrow> real \<Rightarrow> ml_phrase list \<times> nat set" where
  "group_multiline_run texts y_tolerance_range x_tolerance =
     fold (ml_pass x_tolerance (sorted_texts texts))
          (range_down (fst y_tolerance_range) (snd y_tolerance_range)) ([], {})"

definition group_multiline_texts ::
  "'m text_item_scheme list \<Rightarrow> int \<times> int \<Rightarrow> real \<Rightarrow> ml_phrase list" where
  "group_multiline_texts texts y_tolerance_range x_tolerance =
     fst (group_multiline_run texts y_tolerance_range x_tolerance)"


text \<open>The pairs of \<^verbatim>\<open>enumerate(texts)\<close> whose index is not in \<open>used\<close>: what a pass works on.\<close>

definition unused_items :: "nat set \<Rightarrow> 'a list \<Rightarrow> (nat \<times> 'a) list" where
  "unused_items used xs = filter (\<lambda>it. fst it \<notin> used) (enumerate 0 xs)"

text \<open>
  The unused words of a line by \<open>x\<close>, and the horizontal link on pairs.
\<close>

definition unused_sorted :: "nat set \<Rightarrow> (nat \<times> 'm text_item_scheme) list \<Rightarrow> (nat \<times> 'm text_item_scheme) list" where
  "unused_sorted used line = filter (\<lambda>item. fst item \<notin> used) (sort_key (\<lambda>item. t_x (snd item)) line)"

definition item_linked :: "real \<Rightarrow> nat \<times> 'm text_item_scheme \<Rightarrow> nat \<times> 'm text_item_scheme \<Rightarrow> bool" where
  "item_linked tol a b = x_linked tol (snd a) (snd b)"

text \<open>
  A phrase is boxed over the sorted words when its index list is non-empty and in range and
  its rectangle is the hull of the member words: \<open>x\<close> and \<open>y\<close> are the least \<open>x\<close> and \<open>y\<close> of
  the members, and \<open>x\<close> + width and \<open>y\<close> + height are the greatest right and bottom edges.
\<close>

definition boxed :: "'m text_item_scheme list \<Rightarrow> ml_phrase \<Rightarrow> bool" where
  "boxed texts p \<longleftrightarrow>
     (let ms = map (\<lambda>i. texts ! i) (m_indices p) in
        ms \<noteq> [] \<and> set (m_indices p) \<subseteq> {..<length texts} \<and>
        t_x p = Min (t_x ` set ms) \<and>
        t_y p = Min (t_y ` set ms) \<and>
        t_x p + get0 (t_width p) = Max ((\<lambda>w. t_x w + get0 (t_width w)) ` set ms) \<and>
        t_y p + get0 (t_height p) = Max ((\<lambda>w. t_y w + get0 (t_height w)) ` set ms))"

text \<open>
  Index lists are disjoint when no two of them, at different positions, share an index.  The
  invariant of the passes: the phrases' index lists are disjoint, their union is the used
  set, the used set is in range, and every phrase is boxed.
\<close>

definition disjoint_lists :: "nat list list \<Rightarrow> bool" where
  "disjoint_lists iss = sorted_wrt (\<lambda>a b. set a \<inter> set b = {}) iss"

definition ml_inv :: "'m text_item_scheme list \<Rightarrow> ml_phrase list \<times> nat set \<Rightarrow> bool" where
  "ml_inv texts st \<longleftrightarrow>
     disjoint_lists (map m_indices (fst st)) \<and>
     \<Union> (set ` set (map m_indices (fst st))) = snd st \<and>
     snd st \<subseteq> {..<length texts} \<and>
     list_all (boxed texts) (fst st)"


text \<open>Three words of one text line, given right to left.\<close>

definition tw :: "string \<Rightarrow> real \<Rightarrow> real \<Rightarrow> real \<Rightarrow> text_item" where
  "tw s vx vy w = \<lparr>t_text = s, t_confidence = 90, t_x = vx, t_y = vy, t_width = Some w, t_height = Some 8\<rparr>"

definition three_texts :: "text_item list" where
  "three_texts = [tw ''T101'' 300 100 30, tw ''RM'' 60 100 20, tw ''BOILER'' 10 100 40]"

section \<open>Page-by-page multi-pass annotation (Automapper.py)\<close>

text \<open>
  \<^verbatim>\<open>page.get_text("words")\<close> yields tuples \<^verbatim>\<open>(x0, y0, x1, y1, text, block_no, line_no, word_no)\<close>;
  the loop reads components 0, 1 and 4, and compares whole tuples in \<^verbatim>\<open>words.index\<close>.
\<close>

record pdf_word =
  w_x0 :: real
  w_y0 :: real
  w_x1 :: real
  w_y1 :: real
  w_text :: string
  w_block_no :: int
  w_line_no :: int
  w_word_no :: int

record rect =
  r_x0 :: real
  r_y0 :: real
  r_x1 :: real
  r_y1 :: real

text \<open>\<^verbatim>\<open>fitz.Rect(word[0:4])\<close>.\<close>

definition word_rect :: "pdf_word \<Rightarrow> rect" where
  "word_rect w = \<lparr>r_x0 = w_x0 w, r_y0 = w_y0 w, r_x1 = w_x1 w, r_y1 = w_y1 w\<rparr>"

text \<open>The entries of \<^verbatim>\<open>potential_phrases\<close>.\<close>

record candidate =
  c_phrase :: string
  c_bbox :: rect
  c_word_indices :: "nat list"
  c_length :: nat
  c_line_index :: nat
  c_position_in_line :: nat

record sign_data =
  SignType :: string
  FullMessage :: string

text \<open>
  \<^verbatim>\<open>
  for word in words:
      if not current_line or abs(word[1] - current_line[-1][1]) <= y_tolerance:
          current_line.append(word)
      else:
          lines.append(current_line)
          current_line = [word]
  if current_line:
      lines.append(current_line)
  \<close>
\<close>

definition am_line_step ::
  "int \<Rightarrow> pdf_word \<Rightarrow> pdf_word list list \<times> pdf_word list \<Rightarrow> pdf_word list list \<times> pdf_word list" where
  "am_line_step y_tolerance word st =
     (case st of (lines, current_line) \<Rightarrow>
        if current_line = [] \<or> \<bar>w_y0 word - w_y0 (last current_line)\<bar> \<le> real_of_int y_tolerance
        then (lines, current_line @ [word])
        else (lines @ [current_line], [word]))"

definition am_lines :: "int \<Rightarrow> pdf_word list \<Rightarrow> pdf_word list list" where
  "am_lines y_tolerance words = flush (fold (am_line_step y_tolerance) words ([], []))"

text \<open>\<^verbatim>\<open>words.index(w)\<close>: the first position of an equal element; \<^verbatim>\<open>ValueError\<close> is \<open>None\<close>.\<close>

fun index_of :: "'a \<Rightarrow> 'a list \<Rightarrow> nat option" where
  "index_of a [] = None"
| "index_of a (b # bs) = (if b = a then Some 0 else map_option Suc (index_of a bs))"

text \<open>
  One candidate: the words \<open>i, ..., i + phrase_length - 1\<close> of the sorted line.  The union of
  rectangles (\<^verbatim>\<open>bbox |= fitz.Rect(...)\<close>) belongs to PyMuPDF and is the parameter \<open>runion\<close>.
  An index that \<^verbatim>\<open>words.index\<close> does not find is logged and left out.  The loops below call
  this with \<open>i + phrase_length\<close> at most the length of the line.
\<close>

definition am_candidate ::
  "(rect \<Rightarrow> rect \<Rightarrow> rect) \<Rightarrow> pdf_word list \<Rightarrow> nat \<Rightarrow> pdf_word list \<Rightarrow> nat \<Rightarrow> nat \<Rightarrow> candidate" where
  "am_candidate runion words line_idx line i phrase_length =
     \<lparr>c_phrase = join_sp (take phrase_length (drop i (map w_text line))),
      c_bbox = fold (\<lambda>j bbox. runion bbox (word_rect (line ! j))) [i + 1 ..< i + phrase_length]
                 (word_rect (line ! i)),
      c_word_indices = concat (map (\<lambda>j. case index_of (line ! j) words of
                                          None \<Rightarrow> [] | Some k \<Rightarrow> [k]) [i ..< i + phrase_length]),
      c_length = phrase_length,
      c_line_index = line_idx,
      c_position_in_line = i\<rparr>"

text \<open>
  \<^verbatim>\<open>
  line.sort(key=lambda w: w[0])
  line_words = [word[4] for word in line]
  max_phrase_length = min(5, len(line_words))
  for phrase_length in range(1, max_phrase_length + 1):
      for i in range(len(line_words) - phrase_length + 1):
          ...
  \<close>
\<close>

definition line_candidates ::
  "(rect \<Rightarrow> rect \<Rightarrow> rect) \<Rightarrow> pdf_word list \<Rightarrow> nat \<Rightarrow> pdf_word list \<Rightarrow> candidate list" where
  "line_candidates runion words line_idx line0 =
     (let line = sort_key w_x0 line0;
          line_words = map w_text line;
          max_phrase_length = min 5 (length line_words)
      in concat (map (\<lambda>phrase_length.
                   map (\<lambda>i. am_candidate runion words line_idx line i phrase_length)
                       [0 ..< length line_words - phrase_length + 1])
                 [1 ..< max_phrase_length + 1]))"

text \<open>
  All candidates of a pass, then
  \<^verbatim>\<open>potential_phrases.sort(key=lambda m: (-m['length'], m['line_index'], m['position_in_line']))\<close>.
\<close>

definition unsorted_phrases ::
  "(rect \<Rightarrow> rect \<Rightarrow> rect) \<Rightarrow> pdf_word list \<Rightarrow> int \<Rightarrow> candidate list" where
  "unsorted_phrases runion words y_tolerance =
     concat (map (\<lambda>il. line_candidates runion words (fst il) (snd il))
                 (enumerate 0 (am_lines y_tolerance words)))"

definition potential_phrases ::
  "(rect \<Rightarrow> rect \<Rightarrow> rect) \<Rightarrow> pdf_word list \<Rightarrow> int \<Rightarrow> candidate list" where
  "potential_phrases runion words y_tolerance =
     sort_key (\<lambda>m. (- int (c_length m), c_line_index m, c_position_in_line m))
              (unsorted_phrases runion words y_tolerance)"

text \<open>
  The state the selection loop reads and writes.  \<open>page_phrases\<close> lists the candidates
  annotated on the current page, one per row added to \<^verbatim>\<open>message_schedule\<close>; the legend
  tallies and \<^verbatim>\<open>found_phrases\<close>, which the loop only writes, are left out.
\<close>

record am_state =
  annotated_locations :: "string set"
  first_dot_radius :: "real option"
  dot_number :: nat
  llm_cache :: "string \<rightharpoonup> sign_data"
  message_schedule :: "(sign_data \<times> nat) list"
  page_phrases :: "candidate list"
  page_used_word_indices :: "nat set"

text \<open>
  One iteration of \<^verbatim>\<open>for phrase_info in potential_phrases\<close>, on the state and
  \<^verbatim>\<open>pass_used_word_indices\<close>.  \<open>llm\<close> is \<^verbatim>\<open>query_llm\<close> with the configuration and the outside
  world fixed; an exception it raises leaves the loop (the caller catches it per file).
  \<open>location_key\<close> is the formatting of \<^verbatim>\<open>f"{pdf_file}-{page_num}-{center_x:.2f}-{center_y:.2f}"\<close>.
  The drawing calls have no effect on the state.
\<close>

definition am_select ::
  "(string \<Rightarrow> py_error + sign_data) \<Rightarrow> (real \<Rightarrow> real \<Rightarrow> string) \<Rightarrow> candidate \<Rightarrow>
   am_state \<times> nat set \<Rightarrow> py_error + am_state \<times> nat set" where
  "am_select llm location_key phrase_info sp =
     (case sp of (st, pass_used_word_indices) \<Rightarrow>
        if list_ex (\<lambda>idx. idx \<in> page_used_word_indices st) (c_word_indices phrase_info)
        then Inr (st, pass_used_word_indices)
        else if list_ex (\<lambda>idx. idx \<in> pass_used_word_indices) (c_word_indices phrase_info)
        then Inr (st, pass_used_word_indices)
        else
          (case (case llm_cache st (c_phrase phrase_info) of
                   Some cached \<Rightarrow> Inr (cached, st)
                 | None \<Rightarrow>
                     (case llm (c_phrase phrase_info) of
                        Inl e \<Rightarrow> Inl e
                      | Inr answer \<Rightarrow>
                          Inr (answer,
                               st\<lparr>llm_cache := (llm_cache st)(c_phrase phrase_info \<mapsto> answer)\<rparr>)))
           of Inl e \<Rightarrow> Inl e
            | Inr (sign, st1) \<Rightarrow>
               (let bbox = c_bbox phrase_info;
                    average_height = r_y1 bbox - r_y0 bbox;
                    radius = (case first_dot_radius st1 of
                                None \<Rightarrow> average_height * 1 | Some r \<Rightarrow> r);
                    st2 = st1\<lparr>first_dot_radius := Some radius\<rparr>;
                    center_x = (r_x0 bbox + r_x1 bbox) / 2;
                    center_y = r_y0 bbox - (105 / 100) * radius;
                    key = location_key center_x center_y
                in if key \<in> annotated_locations st2 then Inr (st2, pass_used_word_indices)
                   else Inr
                     (st2\<lparr>message_schedule := message_schedule st2 @ [(sign, dot_number st2)],
                          dot_number := dot_number st2 + 1,
                          annotated_locations := insert key (annotated_locations st2),
                          page_phrases := page_phrases st2 @ [phrase_info],
                          page_used_word_indices :=
                            page_used_word_indices st2 \<union> set (c_word_indices phrase_info)\<rparr>,
                      pass_used_word_indices \<union> set (c_word_indices phrase_info)))))"

text \<open>A loop over a state whose body may raise.\<close>

fun fold_result :: "('a \<Rightarrow> 's \<Rightarrow> 'e + 's) \<Rightarrow> 'a list \<Rightarrow> 's \<Rightarrow> 'e + 's" where
  "fold_result f [] s = Inr s"
| "fold_result f (a # as) s = (case f a s of Inl e \<Rightarrow> Inl e | Inr s' \<Rightarrow> fold_result f as s')"

definition am_pass ::
  "(rect \<Rightarrow> rect \<Rightarrow> rect) \<Rightarrow> (string \<Rightarrow> py_error + sign_data) \<Rightarrow> (real \<Rightarrow> real \<Rightarrow> string) \<Rightarrow>
   pdf_word list \<Rightarrow> int \<Rightarrow> am_state \<Rightarrow> py_error + am_state" where
  "am_pass runion llm location_key words y_tolerance st =
     (case fold_result (am_select llm location_key)
                       (potential_phrases runion words y_tolerance) (st, {}) of
        Inl e \<Rightarrow> Inl e
      | Inr (st', pass_used_word_indices) \<Rightarrow> Inr st')"

text \<open>
  One page: \<^verbatim>\<open>page_used_word_indices = set()\<close>, the passes for \<^verbatim>\<open>range(10, 0, -1)\<close>, then
  \<^verbatim>\<open>unmatched_indices = set(range(len(words))) - page_used_word_indices\<close>.  The state that
  comes in carries what earlier pages and files left (locations, radius, cache, counter).
\<close>

definition am_page_passes ::
  "(rect \<Rightarrow> rect \<Rightarrow> rect) \<Rightarrow> (string \<Rightarrow> py_error + sign_data) \<Rightarrow> (real \<Rightarrow> real \<Rightarrow> string) \<Rightarrow>
   pdf_word list \<Rightarrow> am_state \<Rightarrow> py_error + am_state" where
  "am_page_passes runion llm location_key words st0 =
     fold_result (am_pass runion llm location_key words) (range_down 10 1)
                 (st0\<lparr>page_phrases := [], page_used_word_indices := {}\<rparr>)"


text \<open>Python's \<^verbatim>\<open>str.strip()\<close>, on ASCII.\<close>

definition py_isspace :: "char \<Rightarrow> bool" where
  "py_isspace c \<longleftrightarrow> c \<in> set [CHR 0x09, CHR 0x0A, CHR 0x0B, CHR 0x0C, CHR 0x0D,
                               CHR 0x1C, CHR 0x1D, CHR 0x1E, CHR 0x1F, CHR 0x20]"

definition py_strip :: "string \<Rightarrow> string" where
  "py_strip s = rev (dropWhile py_isspace (rev (dropWhile py_isspace s)))"

definition remaining_text :: "pdf_word list \<Rightarrow> am_state \<Rightarrow> string list" where
  "remaining_text words st =
     map (\<lambda>idx. w_text (words ! idx))
         (filter (\<lambda>idx. idx \<notin> page_used_word_indices st \<and> py_strip (w_text (words ! idx)) \<noteq> [])
                 [0 ..< length words])"


text \<open>
  A page of four words on three text lines; the hull of two rectangles for the union; a
  classifier that answers \<^verbatim>\<open>UNKNOWN\<close>; a location key that tells the top of the page from
  the rest; and the state before the first file.
\<close>

definition pw :: "string \<Rightarrow> real \<Rightarrow> real \<Rightarrow> real \<Rightarrow> int \<Rightarrow> pdf_word" where
  "pw s vx vy w n = \<lparr>w_x0 = vx, w_y0 = vy, w_x1 = vx + w, w_y1 = vy + 8, w_text = s,
                     w_block_no = 0, w_line_no = 0, w_word_no = n\<rparr>"


definition rect_hull :: "rect \<Rightarrow> rect \<Rightarrow> rect" where
  "rect_hull a b = \<lparr>r_x0 = min (r_x0 a) (r_x0 b), r_y0 = min (r_y0 a) (r_y0 b),
                    r_x1 = max (r_x1 a) (r_x1 b), r_y1 = max (r_y1 a) (r_y1 b)\<rparr>"

definition unknown_llm :: "string \<Rightarrow> py_error + sign_data" where
  "unknown_llm s = Inr \<lparr>SignType = ''UNKNOWN'', FullMessage = s\<rparr>"

definition band_key :: "real \<Rightarrow> real \<Rightarrow> string" where
  "band_key cx cy = (if cy < 150 then ''upper'' else ''lower'')"

definition fresh_state :: am_state where
  "fresh_state = \<lparr>annotated_locations = {}, first_dot_radius = None, dot_number = 1,
     llm_cache = Map.empty, message_schedule = [], page_phrases = [], page_used_word_indices = {}\<rparr>"

text \<open>The vertical link of the line loop, and the candidates of the ten passes of a page.\<close>

definition w_linked :: "int \<Rightarrow> pdf_word \<Rightarrow> pdf_word \<Rightarrow> bool" where
  "w_linked tol a b \<longleftrightarrow> \<bar>w_y0 b - w_y0 a\<bar> \<le> real_of_int tol"

definition all_candidates :: "(rect \<Rightarrow> rect \<Rightarrow> rect) \<Rightarrow> pdf_word list \<Rightarrow> candidate set" where
  "all_candidates runion words = (\<Union>y \<in> set (range_down 10 1). set (potential_phrases runion words y))"

text \<open>
  A candidate is well formed for a pass when it has between one and five words, at most as
  many as its line, and is a run of consecutive words of that line sorted by \<open>x0\<close>: its
  phrase is the space-join of the run, and its indices point, in order, at the words of the
  run.
\<close>

definition well_formed :: "pdf_word list \<Rightarrow> int \<Rightarrow> candidate \<Rightarrow> bool" where
  "well_formed words y_tolerance c \<longleftrightarrow>
     1 \<le> c_length c \<and> c_length c \<le> 5 \<and>
     c_line_index c < length (am_lines y_tolerance words) \<and>
     (let line = sort_key w_x0 (am_lines y_tolerance words ! c_line_index c);
          run = take (c_length c) (drop (c_position_in_line c) line)
      in c_length c \<le> min 5 (length line) \<and>
         c_position_in_line c + c_length c \<le> length line \<and>
         length run = c_length c \<and>
         c_phrase c = join_sp (map w_text run) \<and>
         map (\<lambda>k. words ! k) (c_word_indices c) = run \<and>
         set (c_word_indices c) \<subseteq> {..<length words})"

text \<open>
  What a page run adds comes from the candidates: the phrases annotated, and the phrases
  that entered the classifier cache.
\<close>

definition from_candidates :: "candidate set \<Rightarrow> am_state \<Rightarrow> am_state \<Rightarrow> bool" where
  "from_candidates C st0 st \<longleftrightarrow>
     set (page_phrases st) \<subseteq> C \<and>
     dom (llm_cache st) \<subseteq> dom (llm_cache st0) \<union> c_phrase ` C"

text \<open>Six words on one text line.\<close>

definition six_words :: "pdf_word list" where
  "six_words = [pw ''A'' 10 100 5 0, pw ''B'' 20 100 5 1, pw ''C'' 30 100 5 2,
                pw ''D'' 40 100 5 3, pw ''E'' 50 100 5 4, pw ''F'' 60 100 5 5]"

section \<open>Multiline joiner (run\_enhanced\_multi\_scan.py)\<close>















section \<open>The classifier call (Automapper.py, query\_llm)\<close>

text \<open>
  JSON values as Python holds them after \<^verbatim>\<open>response.json()\<close> or \<^verbatim>\<open>json.loads\<close>; an object
  keeps its members in order, and a later member with the same key wins, as in a dict.
\<close>

datatype json = JNull | JBool bool | JNum real | JStr string | JArr "json list"
  | JObj "(string \<times> json) list"

text \<open>
  \<^verbatim>\<open>v.get(key, default)\<close>: defined on dicts only; on any other value the attribute lookup
  raises \<^verbatim>\<open>AttributeError\<close>.
\<close>

definition py_get :: "json \<Rightarrow> string \<Rightarrow> json \<Rightarrow> py_error + json" where
  "py_get v key dflt =
     (case v of
        JObj members \<Rightarrow> Inr (case map_of (rev members) key of None \<Rightarrow> dflt | Some m \<Rightarrow> m)
      | _ \<Rightarrow> Inl AttributeError)"

text \<open>
  \<^verbatim>\<open>v[0]\<close>: the first element of a list (\<^verbatim>\<open>IndexError\<close> when empty), the first character
  of a string, \<^verbatim>\<open>KeyError\<close> on a dict (whose keys are strings), \<^verbatim>\<open>TypeError\<close> otherwise.
\<close>

definition py_index0 :: "json \<Rightarrow> py_error + json" where
  "py_index0 v =
     (case v of
        JArr [] \<Rightarrow> Inl IndexError
      | JArr (a # _) \<Rightarrow> Inr a
      | JStr [] \<Rightarrow> Inl IndexError
      | JStr (c # _) \<Rightarrow> Inr (JStr [c])
      | JObj _ \<Rightarrow> Inl KeyError
      | _ \<Rightarrow> Inl TypeError)"

text \<open>\<^verbatim>\<open>class LLMConfig\<close>.\<close>

record llm_config =
  api_url :: string
  api_key :: string
  model_name :: string
  max_retries :: int
  retry_delay :: real

text \<open>
  What one attempt meets.  \<open>RequestFailed\<close>: \<^verbatim>\<open>requests.post\<close>, \<^verbatim>\<open>raise_for_status\<close> or
  \<^verbatim>\<open>response.json()\<close> raised a \<^verbatim>\<open>RequestException\<close>.  \<open>Responded body\<close>: the request went
  through and the body decoded to \<open>body\<close>.
\<close>

datatype http_outcome = RequestFailed | Responded json

text \<open>The entries the function appends to \<^verbatim>\<open>debug_log\<close>, and the delays it sleeps.\<close>

datatype log_entry =
    LogParseFailed string
  | LogRawResponse string
  | LogRequestFailed nat int
  | LogAllFailed string

record call_trace =
  debug_log :: "log_entry list"
  sleeps :: "real list"

text \<open>The dict the function returns; its values are whatever JSON the reply held.\<close>

record llm_reply =
  reply_SignType :: json
  reply_FullMessage :: json

definition unknown_reply :: "string \<Rightarrow> llm_reply" where
  "unknown_reply txt = \<lparr>reply_SignType = JStr ''UNKNOWN'', reply_FullMessage = JStr txt\<rparr>"

text \<open>
  The body of the \<^verbatim>\<open>try\<close> after a response arrived:
  \<^verbatim>\<open>
  result = response.json()
  content = result.get("choices", [{}])[0].get("message", {}).get("content", "{}")
  try:
      data = json.loads(content)
      return {"SignType": data.get("SignType", "UNKNOWN"),
              "FullMessage": data.get("FullMessage", text)}
  except json.JSONDecodeError:
      debug_log.append(...); debug_log.append(...)
      return {"SignType": "UNKNOWN", "FullMessage": text}
  \<close>
  \<open>json_loads\<close> is \<^verbatim>\<open>json.loads\<close> on a string, \<open>None\<close> for \<^verbatim>\<open>JSONDecodeError\<close>; on a value that is
  not a string \<^verbatim>\<open>json.loads\<close> raises \<^verbatim>\<open>TypeError\<close>.  Only \<^verbatim>\<open>JSONDecodeError\<close> is caught
  here, and only \<^verbatim>\<open>RequestException\<close> by the enclosing handler; any other exception leaves
  the function.
\<close>

definition handle_response ::
  "string \<Rightarrow> (string \<Rightarrow> json option) \<Rightarrow> json \<Rightarrow> call_trace \<Rightarrow> (py_error + llm_reply) \<times> call_trace" where
  "handle_response txt json_loads result tr =
     (case py_get result ''choices'' (JArr [JObj []]) of
        Inl e \<Rightarrow> (Inl e, tr)
      | Inr choices \<Rightarrow>
     (case py_index0 choices of
        Inl e \<Rightarrow> (Inl e, tr)
      | Inr choice \<Rightarrow>
     (case py_get choice ''message'' (JObj []) of
        Inl e \<Rightarrow> (Inl e, tr)
      | Inr message \<Rightarrow>
     (case py_get message ''content'' (JStr ''{}'') of
        Inl e \<Rightarrow> (Inl e, tr)
      | Inr content \<Rightarrow>
     (case content of
        JStr s \<Rightarrow>
          (case json_loads s of
             None \<Rightarrow>
               (Inr (unknown_reply txt),
                tr\<lparr>debug_log := debug_log tr @ [LogParseFailed txt, LogRawResponse s]\<rparr>)
           | Some data \<Rightarrow>
               (case py_get data ''SignType'' (JStr ''UNKNOWN'') of
                  Inl e \<Rightarrow> (Inl e, tr)
                | Inr sign_type \<Rightarrow>
                    (case py_get data ''FullMessage'' (JStr txt) of
                       Inl e \<Rightarrow> (Inl e, tr)
                     | Inr full_message \<Rightarrow>
                         (Inr \<lparr>reply_SignType = sign_type, reply_FullMessage = full_message\<rparr>,
                          tr))))
      | _ \<Rightarrow> (Inl TypeError, tr))))))"

text \<open>
  The retry loop, over the attempts still to make; \<open>world k\<close> is what attempt \<open>k\<close> meets.
  \<^verbatim>\<open>
  for attempt in range(config.max_retries):
      try: ...
      except requests.exceptions.RequestException as e:
          debug_log.append(f"API request failed (attempt {attempt+1}/{config.max_retries}): ...")
          if attempt < config.max_retries - 1:
              time.sleep(config.retry_delay)
  debug_log.append(f"All API requests failed for text: {text}")
  return {"SignType": "UNKNOWN", "FullMessage": text}
  \<close>
\<close>

fun query_attempts ::
  "llm_config \<Rightarrow> string \<Rightarrow> (string \<Rightarrow> json option) \<Rightarrow> (nat \<Rightarrow> http_outcome) \<Rightarrow>
   nat list \<Rightarrow> call_trace \<Rightarrow> (py_error + llm_reply) \<times> call_trace" where
  "query_attempts config txt json_loads world [] tr =
     (Inr (unknown_reply txt), tr\<lparr>debug_log := debug_log tr @ [LogAllFailed txt]\<rparr>)"
| "query_attempts config txt json_loads world (attempt # rest) tr =
     (case world attempt of
        Responded result \<Rightarrow> handle_response txt json_loads result tr
      | RequestFailed \<Rightarrow>
          query_attempts config txt json_loads world rest
            (tr\<lparr>debug_log := debug_log tr @ [LogRequestFailed (attempt + 1) (max_retries config)],
                sleeps := (if int attempt < max_retries config - 1
                           then sleeps tr @ [retry_delay config] else sleeps tr)\<rparr>))"

definition query_llm ::
  "llm_config \<Rightarrow> string \<Rightarrow> (string \<Rightarrow> json option) \<Rightarrow> (nat \<Rightarrow> http_outcome) \<Rightarrow>
   call_trace \<Rightarrow> (py_error + llm_reply) \<times> call_trace" where
  "query_llm config txt json_loads world tr =
     query_attempts config txt json_loads world [0 ..< nat (max_retries config)] tr"

text \<open>
  The default configuration (three retries, two seconds), a trace with nothing in it, a
  parser that is never reached, and two replies of the service: one with an empty list of
  choices, one whose message has \<^verbatim>\<open>null\<close> for its content.
\<close>

definition default_config :: llm_config where
  "default_config = \<lparr>api_url = ''https://api.openai.com/v1/chat/completions'', api_key = ''k'',
                      model_name = ''gpt-4'', max_retries = 3, retry_delay = 2\<rparr>"

definition empty_trace :: call_trace where
  "empty_trace = \<lparr>debug_log = [], sleeps = []\<rparr>"

definition no_parse :: "string \<Rightarrow> json option" where
  "no_parse s = None"

definition empty_choices :: json where
  "empty_choices = JObj [(''choices'', JArr [])]"

definition null_content :: json where
  "null_content = JObj [(''choices'', JArr [JObj [(''message'', JObj [(''content'', JNull)])]])]"

section \<open>Properties of the duplicate reducer\<close>

lemma str_in_iff: "str_in s t \<longleftrightarrow> (\<exists>p q. t = p @ s @ q)"
proof (induction t)
  case Nil
  then show ?case by auto
next
  case (Cons c cs)
  have "(\<exists>p q. c # cs = p @ s @ q) \<longleftrightarrow> prefix s (c # cs) \<or> (\<exists>p q. cs = p @ s @ q)"
  proof
    assume "\<exists>p q. c # cs = p @ s @ q"
    then obtain p q where pq: "c # cs = p @ s @ q" by blast
    show "prefix s (c # cs) \<or> (\<exists>p q. cs = p @ s @ q)"
    proof (cases p)
      case Nil
      with pq show ?thesis by (auto simp: prefix_def)
    next
      case (Cons a p')
      with pq have "cs = p' @ s @ q" by simp
      then show ?thesis by blast
    qed
  next
    assume "prefix s (c # cs) \<or> (\<exists>p q. cs = p @ s @ q)"
    then show "\<exists>p q. c # cs = p @ s @ q"
    proof
      assume "prefix s (c # cs)"
      then obtain q where "c # cs = s @ q" by (auto simp: prefix_def)
      then have "c # cs = [] @ s @ q" by simp
      then show ?thesis by blast
    next
      assume "\<exists>p q. cs = p @ s @ q"
      then obtain p q where "cs = p @ s @ q" by blast
      then have "c # cs = (c # p) @ s @ q" by simp
      then show ?thesis by blast
    qed
  qed
  with Cons.IH show ?case by simp
qed

lemma common_count:
  "sum_list (map (\<lambda>c. 1::nat) (filter P xs)) = card {i. i < length xs \<and> P (xs ! i)}"
proof -
  have "sum_list (map (\<lambda>c. 1::nat) (filter P xs)) = length (filter P xs)"
    by (induction xs) auto
  then show ?thesis by (simp add: length_filter_conv_card)
qed

text \<open>
  Claim C3.  The similarity of two strings is 1 when they are equal; 0.8 when they differ
  and one occurs in the other as a contiguous run; and otherwise the number of positions
  of the first string whose character occurs somewhere in the second, divided by the
  length of the longer string.  In particular every string has similarity 1 with itself.
\<close>

theorem text_similarity_spec:
  "text_similarity a b =
     (if a = b then 1
      else if (\<exists>p q. b = p @ a @ q) \<or> (\<exists>p q. a = p @ b @ q) then 8 / 10
      else real (card {i. i < length a \<and> a ! i \<in> set b}) / real (max (length a) (length b)))
   \<and> (a \<noteq> [] \<longrightarrow> text_similarity a a = 1)"
proof -
  have pos: "max (length a) (length b) > 0" if "a \<noteq> b"
    using that by (cases a; cases b) auto
  show ?thesis
    unfolding text_similarity_def Let_def str_in_iff [symmetric] common_count
    using pos by auto
qed

text \<open>The statement of C3 at \<^verbatim>\<open>RM\<close> against itself and against \<^verbatim>\<open>BOILER RM\<close>.\<close>

theorem text_similarity_spec_witness:
  "''RM'' \<noteq> [] \<and> text_similarity ''RM'' ''RM'' = 1
   \<and> text_similarity ''RM'' ''BOILER RM'' = 8 / 10"
proof -
  have "\<exists>p q. ''BOILER RM'' = p @ ''RM'' @ q"
    by (rule exI [of _ "''BOILER ''"], rule exI [of _ "[]"]) simp
  then show ?thesis
    using text_similarity_spec [of "''RM''" "''RM''"]
      text_similarity_spec [of "''RM''" "''BOILER RM''"]
    by simp
qed

lemma fold_absorb:
  "distinct (map fst ps) \<Longrightarrow>
   fold (absorb_step ok) ps (g, u) =
     (g @ map snd (filter (\<lambda>(j, t). j \<notin> u \<and> ok j t) ps),
      u \<union> fst ` set (filter (\<lambda>(j, t). j \<notin> u \<and> ok j t) ps))"
proof (induction ps arbitrary: g u)
  case Nil
  then show ?case by simp
next
  case (Cons a ps)
  obtain j t where a: "a = (j, t)" by (cases a)
  from Cons.prems a have d: "distinct (map fst ps)" and nj: "j \<notin> fst ` set ps" by auto
  have step: "fold (absorb_step ok) (a # ps) (g, u) = fold (absorb_step ok) ps (absorb_step ok (j, t) (g, u))"
    by (simp add: a)
  show ?case
  proof (cases "j \<notin> u \<and> ok j t")
    case True
    have eq: "filter (\<lambda>(j', t'). j' \<notin> insert j u \<and> ok j' t') ps = filter (\<lambda>(j', t'). j' \<notin> u \<and> ok j' t') ps"
      using nj by (intro filter_cong) (auto simp: image_iff)
    from True have st: "absorb_step ok (j, t) (g, u) = (g @ [t], insert j u)"
      by (simp add: absorb_step_def)
    show ?thesis
      unfolding step st Cons.IH [OF d] eq using True by (simp add: a)
  next
    case False
    then have st: "absorb_step ok (j, t) (g, u) = (g, u)"
      by (auto simp add: absorb_step_def)
    show ?thesis
      unfolding step st Cons.IH [OF d] using False by (simp add: a)
  qed
qed

lemma dedup_inner_absorb:
  "dedup_inner_step p s t1 = absorb_step (\<lambda>j t2. dedup_match p s t1 t2)"
  by (auto simp: fun_eq_iff dedup_inner_step_def absorb_step_def dedup_match_def)

lemma distinct_fst_enumerate: "distinct (map fst (enumerate n xs))"
  by (simp add: map_fst_enumerate)

lemma dedup_inner_fold:
  "fold (dedup_inner_step p s t1) (enumerate 0 texts) (g, u) =
     (g @ map snd (filter (\<lambda>(j, t). j \<notin> u \<and> dedup_match p s t1 t) (enumerate 0 texts)),
      u \<union> fst ` set (filter (\<lambda>(j, t). j \<notin> u \<and> dedup_match p s t1 t) (enumerate 0 texts)))"
  unfolding dedup_inner_absorb by (rule fold_absorb) (rule distinct_fst_enumerate)

lemma calculate_distance_less:
  "calculate_distance t1 t2 < p \<longleftrightarrow> 0 < p \<and> (t_x t1 - t_x t2)\<^sup>2 + (t_y t1 - t_y t2)\<^sup>2 < p\<^sup>2"
proof -
  let ?s = "(t_x t1 - t_x t2)\<^sup>2 + (t_y t1 - t_y t2)\<^sup>2"
  have s0: "0 \<le> ?s" by simp
  show ?thesis
  proof (cases "0 < p")
    case True
    then have "sqrt ?s < p \<longleftrightarrow> ?s < p\<^sup>2"
      by (metis s0 real_sqrt_less_iff real_sqrt_abs abs_of_pos)
    with True show ?thesis by (simp add: calculate_distance_def)
  next
    case False
    have "0 \<le> sqrt ?s" using s0 by (rule real_sqrt_ge_zero)
    with False have "\<not> sqrt ?s < p" by linarith
    with False show ?thesis by (simp only: calculate_distance_def) simp
  qed
qed

lemma dedup_outer_step_eq:
  "dedup_outer_step p s texts (i, t1) (gs, u) =
     (if i \<in> u then (gs, u)
      else (gs @ [t1 # map snd (filter (\<lambda>(j, t). j \<notin> insert i u \<and> dedup_match p s t1 t) (enumerate 0 texts))],
            insert i u \<union> fst ` set (filter (\<lambda>(j, t). j \<notin> insert i u \<and> dedup_match p s t1 t) (enumerate 0 texts))))"
  by (simp add: dedup_outer_step_def dedup_inner_fold)

lemma snd_enumerate_subset: "snd ` set (enumerate n xs) \<subseteq> set xs"
  by (auto simp: in_set_enumerate_eq)

lemma dedup_groups_members:
  "g \<in> set (dedup_groups texts p s) \<Longrightarrow> g \<noteq> [] \<and> set g \<subseteq> set texts"
proof -
  let ?P = "\<lambda>st. \<forall>g \<in> set (fst st). g \<noteq> [] \<and> set g \<subseteq> set texts"
  have "?P (fold (dedup_outer_step p s texts) (enumerate 0 texts) ([], {}))"
  proof (rule fold_invariant [where Q = "\<lambda>it. snd it \<in> set texts"])
    show "snd it \<in> set texts" if "it \<in> set (enumerate 0 texts)" for it
      using that snd_enumerate_subset [of 0 texts] by auto
    show "?P ([], {})" by simp
    show "?P (dedup_outer_step p s texts it st)" if "snd it \<in> set texts" "?P st" for it st
    proof -
      obtain i t1 gs u where [simp]: "it = (i, t1)" "st = (gs, u)" by (cases it; cases st) auto
      have "set (map snd (filter Q (enumerate 0 texts))) \<subseteq> set texts" for Q
        using snd_enumerate_subset [of 0 texts] by auto
      with that show ?thesis
        by (auto simp: dedup_outer_step_eq)
    qed
  qed
  then show "g \<in> set (dedup_groups texts p s) \<Longrightarrow> g \<noteq> [] \<and> set g \<subseteq> set texts"
    by (simp add: dedup_groups_def)
qed

lemma fold_max_first:
  "fold (\<lambda>z best. if f best < f z then z else best) ys y = b \<Longrightarrow>
   b \<in> set (y # ys) \<and> (\<forall>t \<in> set (y # ys). f t \<le> (f b :: 'k::linorder))"
proof (induction ys arbitrary: y)
  case Nil
  then show ?case by simp
next
  case (Cons z ys)
  let ?y' = "if f y < f z then z else y"
  from Cons.prems have "fold (\<lambda>z best. if f best < f z then z else best) ys ?y' = b" by simp
  from Cons.IH [OF this] have b: "b \<in> set (?y' # ys)" and m: "\<forall>t \<in> set (?y' # ys). f t \<le> f b"
    by blast+
  from b have "b \<in> set (y # z # ys)" by (auto split: if_splits)
  moreover from m have "f y \<le> f b" "f z \<le> f b" by (auto split: if_splits)
  ultimately show ?case using m by auto
qed

lemma py_max_key_Inr:
  "xs \<noteq> [] \<Longrightarrow> \<exists>b. py_max_key f xs = Inr b \<and> b \<in> set xs \<and> (\<forall>t \<in> set xs. f t \<le> f b)"
  using fold_max_first [of f "tl xs" "hd xs"] by (cases xs) (auto simp: py_max_key_def)

lemma map_result_Inr:
  "(\<And>a. a \<in> set as \<Longrightarrow> \<exists>b. f a = Inr b \<and> R a b) \<Longrightarrow>
   \<exists>bs. map_result f as = Inr bs \<and> list_all2 R as bs"
proof (induction as)
  case Nil
  then show ?case by simp
next
  case (Cons a as)
  from Cons.prems obtain b where b: "f a = Inr b" "R a b" by auto
  from Cons obtain bs where bs: "map_result f as = Inr bs" "list_all2 R as bs" by auto
  from b bs show ?case by simp
qed

lemma best_key_le:
  "best_key t \<le> best_key b \<longleftrightarrow>
     t_confidence t < t_confidence b \<or>
     (t_confidence t = t_confidence b \<and> length (t_text t) \<le> length (t_text b))"
  by (auto simp: best_key_def less_eq_prod_def)

lemma deduplicate_texts_best:
  "\<exists>out. deduplicate_texts texts p s = Inr out \<and>
     list_all2 (\<lambda>g b. b \<in> set g \<and> (\<forall>t \<in> set g. best_key t \<le> best_key b)) (dedup_groups texts p s) out"
  unfolding deduplicate_texts_def
  by (rule map_result_Inr) (use dedup_groups_members py_max_key_Inr in blast)

lemma scenario2: "deduplicate_texts [boiler1, boiler2] 15 (7 / 10) = Inr [boiler1]"
  by (simp add: deduplicate_texts_def dedup_groups_def dedup_outer_step_eq dedup_match_def
      calculate_distance_less text_similarity_def boiler1_def boiler2_def py_max_key_def power2_eq_square
      best_key_def less_prod_def)

text \<open>
  Claim C2.  The reducer never fails, and its output has exactly one item per cluster it
  formed, in cluster order: the item is a member of its cluster, and every member of the
  cluster has a smaller confidence, or the same confidence and a text that is not longer.
  On the two reports of \<^verbatim>\<open>BOILER RM\<close> (confidences 96 and 92, thresholds 15 and 0.7) the
  output is the single label with text \<^verbatim>\<open>BOILER RM\<close> and confidence 96.
\<close>

theorem dedup_representative:
  "(\<exists>out. deduplicate_texts texts p s = Inr out \<and>
      length out = length (dedup_groups texts p s) \<and>
      (\<forall>k < length out.
         out ! k \<in> set (dedup_groups texts p s ! k) \<and>
         (\<forall>t \<in> set (dedup_groups texts p s ! k).
            t_confidence t < t_confidence (out ! k) \<or>
            (t_confidence t = t_confidence (out ! k) \<and>
             length (t_text t) \<le> length (t_text (out ! k))))))
   \<and> deduplicate_texts [boiler1, boiler2] 15 (7 / 10) = Inr [boiler1]
   \<and> t_text boiler1 = ''BOILER RM'' \<and> t_confidence boiler1 = 96"
proof -
  from deduplicate_texts_best [of texts p s] obtain out where
    out: "deduplicate_texts texts p s = Inr out" and
    all: "list_all2 (\<lambda>g b. b \<in> set g \<and> (\<forall>t \<in> set g. best_key t \<le> best_key b)) (dedup_groups texts p s) out"
    by blast
  from all have len: "length out = length (dedup_groups texts p s)"
    by (simp add: list_all2_lengthD)
  have "out ! k \<in> set (dedup_groups texts p s ! k) \<and>
         (\<forall>t \<in> set (dedup_groups texts p s ! k).
            t_confidence t < t_confidence (out ! k) \<or>
            (t_confidence t = t_confidence (out ! k) \<and>
             length (t_text t) \<le> length (t_text (out ! k))))" if "k < length out" for k
    using list_all2_nthD2 [OF all that] by (simp add: best_key_le)
  with out len show ?thesis
    by (simp add: scenario2) (simp add: boiler1_def)
qed

lemmas dedup_eval = deduplicate_texts_def dedup_groups_def dedup_outer_step_eq dedup_match_def
      calculate_distance_less text_similarity_def py_max_key_def power2_eq_square
      best_key_def less_prod_def

text \<open>The statement of C2 at the two reports of \<^verbatim>\<open>BOILER RM\<close>: one cluster, one label.\<close>

theorem dedup_representative_witness:
  "deduplicate_texts [boiler1, boiler2] 15 (7 / 10) = Inr [boiler1]
   \<and> dedup_groups [boiler1, boiler2] 15 (7 / 10) = [[boiler1, boiler2]]
   \<and> boiler1 \<in> set (dedup_groups [boiler1, boiler2] 15 (7 / 10) ! 0)
   \<and> t_confidence boiler2 < t_confidence boiler1"
proof -
  have g: "dedup_groups [boiler1, boiler2] 15 (7 / 10) = [[boiler1, boiler2]]"
    by (simp add: dedup_eval boiler1_def boiler2_def)
  show ?thesis
    using dedup_representative [of "[boiler1, boiler2]" 15 "7 / 10"] g
    by (auto simp: boiler1_def boiler2_def)
qed








section \<open>Properties of the line grouper and the phrase builder\<close>

lemma group_no_append_left:
  "k < length (concat gs) \<Longrightarrow> group_no (gs @ hs) k = group_no gs k"
proof (induction gs arbitrary: k)
  case Nil
  then show ?case by simp
next
  case (Cons g gs)
  then show ?case by (cases "k < length g") auto
qed

lemma group_no_append_right:
  "group_no (gs @ hs) (length (concat gs) + j) = length gs + group_no hs j"
  by (induction gs) auto

lemma group_no_last:
  "length (concat gs) \<le> k \<Longrightarrow> k < length (concat gs) + length g \<Longrightarrow>
   group_no (gs @ [g]) k = length gs"
  using group_no_append_right [of gs "[g]" "k - length (concat gs)"] by simp

lemma group_no_snoc_grow:
  "k < length (concat gs) + length g \<Longrightarrow> group_no (gs @ [g @ h]) k = group_no (gs @ [g]) k"
proof (cases "k < length (concat gs)")
  case True
  then show ?thesis by (simp add: group_no_append_left)
next
  case False
  assume "k < length (concat gs) + length g"
  with False show ?thesis
    using group_no_last [of gs k g] group_no_last [of gs k "g @ h"] by simp
qed

text \<open>The state of the chain loop after a prefix.\<close>

lemma chain_fold_invariant:
  "fold (chain_step R) xs ([], []) = (gs, cur) \<Longrightarrow>
     concat gs @ cur = xs \<and> [] \<notin> set gs \<and> (xs \<noteq> [] \<longrightarrow> cur \<noteq> []) \<and>
     (\<forall>k. Suc k < length xs \<longrightarrow>
        (group_no (gs @ [cur]) (Suc k) = group_no (gs @ [cur]) k) = R (xs ! k) (xs ! Suc k))"
proof (induction xs arbitrary: gs cur rule: rev_induct)
  case Nil
  then show ?case by simp
next
  case (snoc x xs)
  obtain gs0 cur0 where st: "fold (chain_step R) xs ([], []) = (gs0, cur0)"
    by (cases "fold (chain_step R) xs ([], [])")
  from snoc.IH [OF st] have
    cat: "concat gs0 @ cur0 = xs" and ne: "[] \<notin> set gs0" and cne: "xs \<noteq> [] \<longrightarrow> cur0 \<noteq> []" and
    lk: "\<forall>k. Suc k < length xs \<longrightarrow>
        (group_no (gs0 @ [cur0]) (Suc k) = group_no (gs0 @ [cur0]) k) = R (xs ! k) (xs ! Suc k)"
    by blast+
  from snoc.prems st have new: "(gs, cur) = chain_step R x (gs0, cur0)" by simp
  have len: "length xs = length (concat gs0) + length cur0" using cat by (metis length_append)
  show ?case
  proof (cases "cur0 = []")
    case True
    with cne have "xs = []" by blast
    with new True cat ne show ?thesis by (simp add: chain_step_def)
  next
    case False
    then have xne: "xs \<noteq> []" using cat by auto
    have lastx: "last cur0 = xs ! (length xs - 1)"
      using False cat by (metis last_appendR last_conv_nth xne)
    have cpos: "0 < length cur0" using False by simp
    show ?thesis
    proof (cases "R (last cur0) x")
      case True
      with new False have g: "gs = gs0" "cur = cur0 @ [x]" by (simp_all add: chain_step_def)
      have "(group_no (gs @ [cur]) (Suc k) = group_no (gs @ [cur]) k) = R ((xs @ [x]) ! k) ((xs @ [x]) ! Suc k)"
        if k: "Suc k < length (xs @ [x])" for k
      proof (cases "Suc k < length xs")
        case True
        then have "group_no (gs @ [cur]) (Suc k) = group_no (gs0 @ [cur0]) (Suc k)"
          "group_no (gs @ [cur]) k = group_no (gs0 @ [cur0]) k"
          unfolding g using len by (simp_all add: group_no_snoc_grow)
        with lk True show ?thesis by (simp add: nth_append)
      next
        case F: False
        with k have ke: "Suc k = length xs" by simp
        have kb: "length (concat gs0) \<le> k" "k < length (concat gs0) + length cur0"
          using ke len cpos by linarith+
        have a: "group_no (gs @ [cur]) (Suc k) = length gs0"
          unfolding g using ke len by (intro group_no_last) auto
        have b: "group_no (gs @ [cur]) k = length gs0"
          unfolding g using kb by (intro group_no_last) auto
        have "(xs @ [x]) ! k = last cur0" using ke [symmetric] lastx by (simp add: nth_append)
        moreover have "(xs @ [x]) ! Suc k = x" using ke by simp
        ultimately show ?thesis using a b True by simp
      qed
      with g cat ne show ?thesis by simp
    next
      case nR: False
      with new False have g: "gs = gs0 @ [cur0]" "cur = [x]" by (simp_all add: chain_step_def)
      have "(group_no (gs @ [cur]) (Suc k) = group_no (gs @ [cur]) k) = R ((xs @ [x]) ! k) ((xs @ [x]) ! Suc k)"
        if k: "Suc k < length (xs @ [x])" for k
      proof (cases "Suc k < length xs")
        case True
        then have "Suc k < length (concat (gs0 @ [cur0]))" "k < length (concat (gs0 @ [cur0]))"
          using len by simp_all
        then have "group_no ((gs0 @ [cur0]) @ [[x]]) (Suc k) = group_no (gs0 @ [cur0]) (Suc k)"
          "group_no ((gs0 @ [cur0]) @ [[x]]) k = group_no (gs0 @ [cur0]) k"
          by (simp_all only: group_no_append_left)
        then have "group_no (gs @ [cur]) (Suc k) = group_no (gs0 @ [cur0]) (Suc k)"
          "group_no (gs @ [cur]) k = group_no (gs0 @ [cur0]) k"
          unfolding g by simp_all
        with lk True show ?thesis by (simp add: nth_append)
      next
        case F: False
        with k have ke: "Suc k = length xs" by simp
        have a: "group_no (gs @ [cur]) (Suc k) = Suc (length gs0)"
          unfolding g using ke len group_no_last [of "gs0 @ [cur0]" "Suc k" "[x]"] by simp
        have kb: "length (concat gs0) \<le> k" "k < length (concat gs0) + length cur0"
          using ke len cpos by linarith+
        have "group_no (gs0 @ [cur0]) k = length gs0"
          using kb by (rule group_no_last)
        moreover have "k < length (concat (gs0 @ [cur0]))" using kb by simp
        then have "group_no ((gs0 @ [cur0]) @ [[x]]) k = group_no (gs0 @ [cur0]) k"
          by (rule group_no_append_left)
        ultimately have b: "group_no (gs @ [cur]) k = length gs0"
          unfolding g by simp
        have "(xs @ [x]) ! k = last cur0" using ke [symmetric] lastx by (simp add: nth_append)
        moreover have "(xs @ [x]) ! Suc k = x" using ke by simp
        ultimately show ?thesis using a b nR by simp
      qed
      with g cat ne False show ?thesis by simp
    qed
  qed
qed

lemma chain_groups_props:
  "concat (chain_groups R xs) = xs \<and> [] \<notin> set (chain_groups R xs) \<and>
   (\<forall>k. Suc k < length xs \<longrightarrow>
      (group_no (chain_groups R xs) (Suc k) = group_no (chain_groups R xs) k) = R (xs ! k) (xs ! Suc k))"
proof -
  obtain gs cur where st: "fold (chain_step R) xs ([], []) = (gs, cur)"
    by (cases "fold (chain_step R) xs ([], [])")
  note inv = chain_fold_invariant [OF st]
  show ?thesis
  proof (cases "cur = []")
    case True
    with inv have "xs = []" by blast
    with st True show ?thesis by (simp add: chain_groups_def flush_def)
  next
    case False
    with st have "chain_groups R xs = gs @ [cur]" by (simp add: chain_groups_def flush_def)
    with inv False show ?thesis by simp
  qed
qed

lemma line_step_chain: "line_step tol = chain_step (y_linked tol)"
  by (auto simp: fun_eq_iff line_step_def chain_step_def y_linked_def)

lemma group_lines_chain: "group_lines tol ws = chain_groups (y_linked tol) ws"
  by (simp add: group_lines_def chain_groups_def line_step_chain)

lemma chain_step_cur_nonempty: "snd (chain_step R t st) \<noteq> []"
  by (cases st) (simp add: chain_step_def)

lemma fold_steps_agree:
  assumes "\<And>t gs cur. cur \<noteq> [] \<Longrightarrow> f t (gs, cur) = chain_step R t (gs, cur)"
  shows "cur \<noteq> [] \<Longrightarrow> fold f ws (gs, cur) = fold (chain_step R) ws (gs, cur)"
proof (induction ws arbitrary: gs cur)
  case Nil
  then show ?case by simp
next
  case (Cons w ws)
  obtain gs' cur' where st: "chain_step R w (gs, cur) = (gs', cur')"
    by (cases "chain_step R w (gs, cur)")
  then have "cur' \<noteq> []" using chain_step_cur_nonempty [of R w "(gs, cur)"] by simp
  from Cons.IH [OF this] assms [OF Cons.prems] st show ?case by simp
qed

lemma phrase_groups_of_chain:
  "phrase_groups_of tol (w # ws) = Inr (chain_groups (x_linked tol) (w # ws))"
proof -
  have "fold (phrase_step tol) ws ([], [w]) = fold (chain_step (x_linked tol)) ws ([], [w])"
    by (rule fold_steps_agree) (simp_all add: phrase_step_def chain_step_def x_linked_def)
  then show ?thesis
    by (simp add: phrase_groups_of_def chain_groups_def chain_step_def)
qed

lemma fold_skip: "fold (\<lambda>x s. if P x then f x s else s) xs s = fold f (filter P xs) s"
  by (induction xs arbitrary: s) simp_all

lemma ml_lines_chain:
  "ml_lines tol used texts =
     chain_groups (\<lambda>a b. y_linked (real_of_int tol) (snd a) (snd b)) (unused_items used texts)"
proof -
  have eq: "ml_line_step tol used =
      (\<lambda>it st. if fst it \<notin> used then chain_step (\<lambda>a b. y_linked (real_of_int tol) (snd a) (snd b)) it st else st)"
    by (auto simp: fun_eq_iff ml_line_step_def chain_step_def y_linked_def Let_def)
  show ?thesis
    unfolding ml_lines_def chain_groups_def unused_items_def eq fold_skip ..
qed

text \<open>
  Claim C5.  The line grouper splits its input sequence into consecutive, non-empty lines, and
  two consecutive boxes of the sequence are in the same line exactly when the \<open>y\<close> of the
  later one differs from the \<open>y\<close> of the earlier one, which is the last box added to the
  current line, by at most the tolerance.  This holds for the server's line loop on any
  sequence, and for the line loop of a pass of \<^verbatim>\<open>group_multiline_texts\<close> on the sequence of
  the words not yet used.  The comparison is chained: three boxes at \<open>y\<close> = 0, 10, 20 form
  one line under tolerance 10, whose spread is 20.
\<close>

theorem line_grouper_chained:
  "(concat (group_lines tol ws) = ws \<and> [] \<notin> set (group_lines tol ws) \<and>
    (\<forall>k. Suc k < length ws \<longrightarrow>
       (group_no (group_lines tol ws) (Suc k) = group_no (group_lines tol ws) k)
         = (\<bar>t_y (ws ! Suc k) - t_y (ws ! k)\<bar> \<le> tol)))
   \<and> (let us = unused_items used texts; ls = ml_lines y_tolerance used texts in
       concat ls = us \<and> [] \<notin> set ls \<and>
       (\<forall>k. Suc k < length us \<longrightarrow>
          (group_no ls (Suc k) = group_no ls k)
            = (\<bar>t_y (snd (us ! Suc k)) - t_y (snd (us ! k))\<bar> \<le> real_of_int y_tolerance)))
   \<and> group_lines 10 [stair 0, stair 1, stair 2] = [[stair 0, stair 1, stair 2]]
   \<and> t_y (stair 2) - t_y (stair 0) > 10"
proof -
  have 1: "concat (group_lines tol ws) = ws \<and> [] \<notin> set (group_lines tol ws) \<and>
    (\<forall>k. Suc k < length ws \<longrightarrow>
       (group_no (group_lines tol ws) (Suc k) = group_no (group_lines tol ws) k)
         = (\<bar>t_y (ws ! Suc k) - t_y (ws ! k)\<bar> \<le> tol))"
    using chain_groups_props [of "y_linked tol" ws]
    unfolding group_lines_chain y_linked_def by simp
  have 2: "let us = unused_items used texts; ls = ml_lines y_tolerance used texts in
       concat ls = us \<and> [] \<notin> set ls \<and>
       (\<forall>k. Suc k < length us \<longrightarrow>
          (group_no ls (Suc k) = group_no ls k)
            = (\<bar>t_y (snd (us ! Suc k)) - t_y (snd (us ! k))\<bar> \<le> real_of_int y_tolerance))"
    using chain_groups_props [of "\<lambda>a b. y_linked (real_of_int y_tolerance) (snd a) (snd b)" "unused_items used texts"]
    unfolding ml_lines_chain y_linked_def Let_def by simp
  have 3: "group_lines 10 [stair 0, stair 1, stair 2] = [[stair 0, stair 1, stair 2]]"
    by (simp add: group_lines_def line_step_def flush_def stair_def)
  have 4: "t_y (stair 2) - t_y (stair 0) > 10" by (simp add: stair_def)
  from 1 2 3 4 show ?thesis by blast
qed

text \<open>The statement of C5 on boxes at \<open>y\<close> = 0, 10, 30 under tolerance 10: two lines.\<close>

theorem line_grouper_chained_witness:
  "group_lines 10 [stair 0, stair 1, stair 3] = [[stair 0, stair 1], [stair 3]]
   \<and> group_no (group_lines 10 [stair 0, stair 1, stair 3]) 1 = group_no (group_lines 10 [stair 0, stair 1, stair 3]) 0
   \<and> group_no (group_lines 10 [stair 0, stair 1, stair 3]) 2 \<noteq> group_no (group_lines 10 [stair 0, stair 1, stair 3]) 1"
proof -
  have g: "group_lines 10 [stair 0, stair 1, stair 3] = [[stair 0, stair 1], [stair 3]]"
    by (simp add: group_lines_def line_step_def flush_def stair_def)
  have a: "\<bar>t_y ([stair 0, stair 1, stair 3] ! Suc 0) - t_y ([stair 0, stair 1, stair 3] ! 0)\<bar> \<le> 10"
    by (simp add: stair_def)
  have b: "\<not> \<bar>t_y ([stair 0, stair 1, stair 3] ! Suc 1) - t_y ([stair 0, stair 1, stair 3] ! 1)\<bar> \<le> 10"
    by (simp add: stair_def)
  have l0: "Suc 0 < length [stair 0, stair 1, stair 3]" and l1: "Suc 1 < length [stair 0, stair 1, stair 3]"
    by simp_all
  from line_grouper_chained [of 10 "[stair 0, stair 1, stair 3]" "{}" "[] :: ocr_text list" 10]
  have lk: "\<forall>k. Suc k < length [stair 0, stair 1, stair 3] \<longrightarrow>
       (group_no (group_lines 10 [stair 0, stair 1, stair 3]) (Suc k) = group_no (group_lines 10 [stair 0, stair 1, stair 3]) k)
         = (\<bar>t_y ([stair 0, stair 1, stair 3] ! Suc k) - t_y ([stair 0, stair 1, stair 3] ! k)\<bar> \<le> 10)"
    by blast
  from lk l0 a have "group_no (group_lines 10 [stair 0, stair 1, stair 3]) (Suc 0) = group_no (group_lines 10 [stair 0, stair 1, stair 3]) 0"
    by blast
  moreover from lk l1 b have "group_no (group_lines 10 [stair 0, stair 1, stair 3]) (Suc 1) \<noteq> group_no (group_lines 10 [stair 0, stair 1, stair 3]) 1"
    by blast
  ultimately show ?thesis using g by (simp add: numeral_2_eq_2)
qed


lemma server_phrase_entry_anchored:
  "g \<noteq> [] \<Longrightarrow> \<exists>p. server_phrase_entry g = Inr p \<and> anchored g p"
  by (cases g) (simp_all add: server_phrase_entry_def anchored_def)

lemma sort_key_nonempty: "xs \<noteq> [] \<Longrightarrow> sort_key f xs \<noteq> []"
  using length_sort [of f xs] by (cases "sort_key f xs") auto

lemma line_phrases_ok:
  assumes "line \<noteq> []"
  shows "\<exists>gs ps. phrase_groups_of tol (sort_key t_x line) = Inr gs \<and>
            gs = chain_groups (x_linked tol) (sort_key t_x line) \<and>
            line_phrases tol line = Inr ps \<and> list_all2 anchored gs ps"
proof -
  from sort_key_nonempty [OF assms] obtain w ws where s: "sort_key t_x line = w # ws"
    by (cases "sort_key t_x line") auto
  let ?gs = "chain_groups (x_linked tol) (sort_key t_x line)"
  have pg: "phrase_groups_of tol (sort_key t_x line) = Inr ?gs"
    unfolding s by (rule phrase_groups_of_chain)
  have ne: "[] \<notin> set ?gs" using chain_groups_props [of "x_linked tol" "sort_key t_x line"] by simp
  have ent: "\<exists>p. server_phrase_entry g = Inr p \<and> anchored g p" if "g \<in> set ?gs" for g
  proof -
    from that ne have "g \<noteq> []" by auto
    then show ?thesis by (rule server_phrase_entry_anchored)
  qed
  from map_result_Inr [of ?gs server_phrase_entry anchored, OF ent]
  obtain ps where "map_result server_phrase_entry ?gs = Inr ps" "list_all2 anchored ?gs ps" by blast
  with pg show ?thesis by (simp add: line_phrases_def)
qed

lemma sort_key_permuted:
  assumes "mset line' = mset line" "distinct (map f line)"
  shows "sort_key f line' = sort_key f line"
proof (rule sort_key_inj_key_eq)
  show "mset line' = mset (sort_key f line)" using assms(1) by simp
  have "set line' = set line" using assms(1) by (metis set_mset_mset)
  moreover have "inj_on f (set line)" using assms(2) by (simp add: distinct_map)
  ultimately show "inj_on f (set line')" by simp
  show "sorted (map f (sort_key f line))" by simp
qed

text \<open>
  Claim C6.  For a non-empty line in any order, the phrase builder sorts the line by \<open>x\<close> and
  splits the sorted line into consecutive, non-empty groups; two consecutive words of the
  sorted line are in the same group exactly when the left edge of the later one minus the
  right edge (\<open>x\<close> + width) of the earlier one is at most the tolerance, so a gap equal to the
  tolerance merges; and the text of each phrase is the space-join of the texts of its group,
  which is in ascending \<open>x\<close> order.  When the words of the line have distinct \<open>x\<close>, any
  reordering of the line gives the same phrases.
\<close>

theorem phrase_builder:
  "(line \<noteq> [] \<longrightarrow>
     (\<exists>gs ps. phrase_groups_of x_tolerance (sort_key t_x line) = Inr gs \<and>
        line_phrases x_tolerance line = Inr ps \<and>
        concat gs = sort_key t_x line \<and> [] \<notin> set gs \<and>
        sorted (map t_x (concat gs)) \<and> mset (concat gs) = mset line \<and>
        (\<forall>k. Suc k < length line \<longrightarrow>
           (group_no gs (Suc k) = group_no gs k)
             = (t_x (sort_key t_x line ! Suc k)
                  - (t_x (sort_key t_x line ! k) + get0 (t_width (sort_key t_x line ! k)))
                \<le> x_tolerance)) \<and>
        map t_text ps = map (\<lambda>g. join_sp (map t_text g)) gs))
   \<and> (\<forall>line'. mset line' = mset line \<and> distinct (map t_x line) \<longrightarrow>
         line_phrases x_tolerance line' = line_phrases x_tolerance line)"
proof -
  have 1: "\<exists>gs ps. phrase_groups_of x_tolerance (sort_key t_x line) = Inr gs \<and>
        line_phrases x_tolerance line = Inr ps \<and>
        concat gs = sort_key t_x line \<and> [] \<notin> set gs \<and>
        sorted (map t_x (concat gs)) \<and> mset (concat gs) = mset line \<and>
        (\<forall>k. Suc k < length line \<longrightarrow>
           (group_no gs (Suc k) = group_no gs k)
             = (t_x (sort_key t_x line ! Suc k)
                  - (t_x (sort_key t_x line ! k) + get0 (t_width (sort_key t_x line ! k)))
                \<le> x_tolerance)) \<and>
        map t_text ps = map (\<lambda>g. join_sp (map t_text g)) gs" if "line \<noteq> []"
  proof -
    from line_phrases_ok [OF that, of x_tolerance] obtain gs ps where
      pg: "phrase_groups_of x_tolerance (sort_key t_x line) = Inr gs" and
      gs: "gs = chain_groups (x_linked x_tolerance) (sort_key t_x line)" and
      lp: "line_phrases x_tolerance line = Inr ps" and
      an: "list_all2 anchored gs ps" by blast
    note props = chain_groups_props [of "x_linked x_tolerance" "sort_key t_x line", folded gs]
    from props have cat: "concat gs = sort_key t_x line" and ne: "[] \<notin> set gs" by simp_all
    from props have lk: "\<forall>k. Suc k < length line \<longrightarrow>
           (group_no gs (Suc k) = group_no gs k)
             = (t_x (sort_key t_x line ! Suc k)
                  - (t_x (sort_key t_x line ! k) + get0 (t_width (sort_key t_x line ! k)))
                \<le> x_tolerance)"
      by (simp add: x_linked_def x_gap_def)
    from an have tx: "map t_text ps = map (\<lambda>g. join_sp (map t_text g)) gs"
      by (induction rule: list_all2_induct) (simp_all add: anchored_def)
    have so: "sorted (map t_x (concat gs))" unfolding cat by simp
    have ms: "mset (concat gs) = mset line" unfolding cat by simp
    from pg lp cat ne so ms lk tx show ?thesis by blast
  qed
  have 2: "line_phrases x_tolerance line' = line_phrases x_tolerance line"
    if "mset line' = mset line \<and> distinct (map t_x line)" for line'
    using sort_key_permuted [of line' line t_x] that by (simp add: line_phrases_def)
  from 1 2 show ?thesis by blast
qed


text \<open>The statement of C6 on \<^verbatim>\<open>RM\<close>, \<^verbatim>\<open>BOILER\<close> given right to left, tolerance 10.\<close>

theorem phrase_builder_witness:
  "[rm_word, boiler_word] \<noteq> []
   \<and> phrase_groups_of 10 (sort_key t_x [rm_word, boiler_word]) = Inr [[boiler_word, rm_word]]
   \<and> t_x rm_word - (t_x boiler_word + get0 (t_width boiler_word)) = 10
   \<and> (\<exists>ps. line_phrases 10 [rm_word, boiler_word] = Inr ps \<and> map t_text ps = [''BOILER RM''])
   \<and> line_phrases 10 [boiler_word, rm_word] = line_phrases 10 [rm_word, boiler_word]"
proof -
  have s: "sort_key t_x [rm_word, boiler_word] = [boiler_word, rm_word]"
    by (simp add: rm_word_def boiler_word_def word_at_def)
  have g: "phrase_groups_of 10 (sort_key t_x [rm_word, boiler_word]) = Inr [[boiler_word, rm_word]]"
    unfolding s by (simp add: phrase_groups_of_def phrase_step_def flush_def x_gap_def get0_def
        rm_word_def boiler_word_def word_at_def)
  have gap: "t_x rm_word - (t_x boiler_word + get0 (t_width boiler_word)) = 10"
    by (simp add: rm_word_def boiler_word_def word_at_def get0_def)
  have d: "mset [boiler_word, rm_word] = mset [rm_word, boiler_word] \<and> distinct (map t_x [rm_word, boiler_word])"
    by (simp add: rm_word_def boiler_word_def word_at_def)
  have j: "map (\<lambda>g. join_sp (map t_text g)) [[boiler_word, rm_word]] = [''BOILER RM'']"
    by (simp add: rm_word_def boiler_word_def word_at_def)
  note pb = phrase_builder [of "[rm_word, boiler_word]" 10]
  from pb have perm: "\<forall>line'. mset line' = mset [rm_word, boiler_word] \<and> distinct (map t_x [rm_word, boiler_word]) \<longrightarrow>
         line_phrases 10 line' = line_phrases 10 [rm_word, boiler_word]"
    by (rule conjunct2)
  have p: "line_phrases 10 [boiler_word, rm_word] = line_phrases 10 [rm_word, boiler_word]"
    by (rule perm [rule_format, OF d])
  have ne: "[rm_word, boiler_word] \<noteq> []" by simp
  from pb [THEN conjunct1, rule_format, OF ne] obtain gs ps where
    gs: "phrase_groups_of 10 (sort_key t_x [rm_word, boiler_word]) = Inr gs" and
    ps: "line_phrases 10 [rm_word, boiler_word] = Inr ps" and
    tx: "map t_text ps = map (\<lambda>g. join_sp (map t_text g)) gs"
    by blast
  from gs g have "gs = [[boiler_word, rm_word]]" by simp
  with tx j have "map t_text ps = [''BOILER RM'']" by simp
  with ps have e: "\<exists>ps. line_phrases 10 [rm_word, boiler_word] = Inr ps \<and> map t_text ps = [''BOILER RM'']"
    by (intro exI [of _ ps] conjI)
  show ?thesis by (intro conjI ne g gap e p)
qed

section \<open>Properties of the multi-pass grouping\<close>





lemma ml_phrase_groups_chain:
  "flush (fold (ml_phrase_step tol) us ([], [u0])) = chain_groups (item_linked tol) (u0 # us)"
proof -
  have "fold (ml_phrase_step tol) us ([], [u0]) = fold (chain_step (item_linked tol)) us ([], [u0])"
    by (rule fold_steps_agree)
      (simp_all add: ml_phrase_step_def chain_step_def x_linked_def item_linked_def Let_def)
  then show ?thesis by (simp add: chain_groups_def chain_step_def)
qed

lemma fold_insert_fst: "fold (\<lambda>item used. insert (fst item) used) g used = used \<union> fst ` set g"
  by (induction g arbitrary: used) auto

lemma ml_emit_fold:
  "[] \<notin> set gs \<Longrightarrow>
   fold (ml_emit y) gs (pp, used) = (pp @ map (ml_phrase_entry y) gs, used \<union> fst ` set (concat gs))"
proof (induction gs arbitrary: pp used)
  case Nil
  then show ?case by simp
next
  case (Cons g gs)
  then have g: "g \<noteq> []" and gs: "[] \<notin> set gs" by auto
  have "fold (ml_emit y) (g # gs) (pp, used) =
        fold (ml_emit y) gs (pp @ [ml_phrase_entry y g], used \<union> fst ` set g)"
    using g by (simp add: ml_emit_def fold_insert_fst)
  also have "\<dots> = ((pp @ [ml_phrase_entry y g]) @ map (ml_phrase_entry y) gs,
                    (used \<union> fst ` set g) \<union> fst ` set (concat gs))"
    by (rule Cons.IH [OF gs])
  finally show ?case by (simp add: Un_assoc image_Un)
qed


lemma ml_process_line_eq:
  "ml_process_line y tol line (pp, used) =
     (pp @ map (ml_phrase_entry y) (chain_groups (item_linked tol) (unused_sorted used line)),
      used \<union> fst ` set (unused_sorted used line))"
proof (cases "unused_sorted used line")
  case Nil
  then have "chain_groups (item_linked tol) (unused_sorted used line) = []"
    by (simp add: chain_groups_def flush_def)
  with Nil show ?thesis
    by (simp add: ml_process_line_def unused_sorted_def Let_def)
next
  case (Cons u0 us)
  then have nall: "\<not> list_all (\<lambda>item. fst item \<in> used) (sort_key (\<lambda>item. t_x (snd item)) line)"
    unfolding unused_sorted_def list_all_iff
    by (metis (mono_tags, lifting) filter_False list.distinct(1))
  note props = chain_groups_props [of "item_linked tol" "u0 # us"]
  from props have ne: "[] \<notin> set (chain_groups (item_linked tol) (u0 # us))" by simp
  from props have cat: "concat (chain_groups (item_linked tol) (u0 # us)) = u0 # us" by simp
  have "ml_process_line y tol line (pp, used) =
        fold (ml_emit y) (chain_groups (item_linked tol) (u0 # us)) (pp, used)"
    using nall Cons by (simp add: ml_process_line_def Let_def unused_sorted_def ml_phrase_groups_chain)
  also have "\<dots> = (pp @ map (ml_phrase_entry y) (chain_groups (item_linked tol) (u0 # us)),
                    used \<union> fst ` set (concat (chain_groups (item_linked tol) (u0 # us))))"
    by (rule ml_emit_fold [OF ne])
  finally show ?thesis unfolding cat Cons .
qed

lemma ml_entry_indices: "m_indices (ml_phrase_entry y g) = map fst g"
  by (simp add: ml_phrase_entry_def Let_def)

lemma enumerate_items:
  "set g \<subseteq> set (enumerate 0 texts) \<Longrightarrow> map (\<lambda>i. texts ! i) (map fst g) = map snd g"
  by (induction g) (auto simp: in_set_enumerate_eq)

lemma enumerate_bound:
  "set g \<subseteq> set (enumerate 0 texts) \<Longrightarrow> fst ` set g \<subseteq> {..<length texts}"
  by (auto simp: in_set_enumerate_eq)

lemma fold_min_Min:
  "g \<noteq> [] \<Longrightarrow> fold min (map f (tl (map h g))) (f (hd (map h g))) = Min (f ` set (map h g))"
  using Min.set_eq_fold [of "f (h (hd g))" "map f (map h (tl g))"] by (cases g) (simp_all add: image_image)

lemma fold_max_Max:
  "g \<noteq> [] \<Longrightarrow> fold max (map f (tl (map h g))) (f (hd (map h g))) = Max (f ` set (map h g))"
  using Max.set_eq_fold [of "f (h (hd g))" "map f (map h (tl g))"] by (cases g) (simp_all add: image_image)

lemma ml_entry_boxed:
  assumes "g \<noteq> []" "set g \<subseteq> set (enumerate 0 texts)"
  shows "boxed texts (ml_phrase_entry y g)"
proof -
  have ms: "map (\<lambda>i. texts ! i) (m_indices (ml_phrase_entry y g)) = map snd g"
    unfolding ml_entry_indices by (rule enumerate_items [OF assms(2)])
  have b: "set (m_indices (ml_phrase_entry y g)) \<subseteq> {..<length texts}"
    unfolding ml_entry_indices using enumerate_bound [OF assms(2)] by simp
  have x: "t_x (ml_phrase_entry y g) = Min (t_x ` set (map snd g))"
    using fold_min_Min [OF assms(1), of t_x snd] by (simp add: ml_phrase_entry_def Let_def)
  have yy: "t_y (ml_phrase_entry y g) = Min (t_y ` set (map snd g))"
    using fold_min_Min [OF assms(1), of t_y snd] by (simp add: ml_phrase_entry_def Let_def)
  have xw: "t_x (ml_phrase_entry y g) + get0 (t_width (ml_phrase_entry y g))
            = Max ((\<lambda>w. t_x w + get0 (t_width w)) ` set (map snd g))"
    using fold_max_Max [OF assms(1), of "\<lambda>w. t_x w + get0 (t_width w)" snd]
    by (simp add: ml_phrase_entry_def Let_def get0_def [of "Some v" for v])
  have yh: "t_y (ml_phrase_entry y g) + get0 (t_height (ml_phrase_entry y g))
            = Max ((\<lambda>w. t_y w + get0 (t_height w)) ` set (map snd g))"
    using fold_max_Max [OF assms(1), of "\<lambda>w. t_y w + get0 (t_height w)" snd]
    by (simp add: ml_phrase_entry_def Let_def get0_def [of "Some v" for v])
  have ne: "map snd g \<noteq> []" using assms(1) by simp
  show ?thesis
    unfolding boxed_def Let_def ms using ne b x yy xw yh by simp
qed

lemma distinct_concat_disjoint:
  "distinct (concat xss) \<Longrightarrow> disjoint_lists xss"
  unfolding disjoint_lists_def by (induction xss) auto

lemma distinct_concat_member:
  "distinct (map f (concat xss)) \<Longrightarrow> xs \<in> set xss \<Longrightarrow> distinct (map f xs)"
  by (induction xss) auto


lemma disjoint_lists_append:
  "disjoint_lists (xs @ ys) \<longleftrightarrow>
     disjoint_lists xs \<and> disjoint_lists ys \<and> (\<forall>x \<in> set xs. \<forall>y \<in> set ys. set x \<inter> set y = {})"
  unfolding disjoint_lists_def by (rule sorted_wrt_append)

lemma unused_sorted_props:
  assumes "distinct (map fst line)" "set line \<subseteq> set (enumerate 0 texts)"
  shows "distinct (map fst (unused_sorted used line))"
    and "set (unused_sorted used line) \<subseteq> set (enumerate 0 texts)"
    and "fst ` set (unused_sorted used line) \<inter> used = {}"
proof -
  have "distinct (map fst (sort_key (\<lambda>item. t_x (snd item)) line))"
    using assms(1) by (metis distinct_map distinct_sort set_sort)
  then show "distinct (map fst (unused_sorted used line))"
    unfolding unused_sorted_def by (rule distinct_map_filter)
  show "set (unused_sorted used line) \<subseteq> set (enumerate 0 texts)"
    using assms(2) by (auto simp: unused_sorted_def)
  show "fst ` set (unused_sorted used line) \<inter> used = {}"
    by (auto simp: unused_sorted_def)
qed

lemma ml_process_line_inv:
  assumes inv: "ml_inv texts (all_phrases @ fst st, snd st)"
    and line: "distinct (map fst line)" "set line \<subseteq> set (enumerate 0 texts)"
  shows "ml_inv texts (all_phrases @ fst (ml_process_line y tol line st), snd (ml_process_line y tol line st))"
proof -
  obtain pp used where st: "st = (pp, used)" by (cases st)
  let ?un = "unused_sorted used line"
  let ?gs = "chain_groups (item_linked tol) ?un"
  note un = unused_sorted_props [OF line, of used]
  note props = chain_groups_props [of "item_linked tol" ?un]
  from props have cat: "concat ?gs = ?un" and ne: "[] \<notin> set ?gs" by simp_all
  have idx: "map m_indices (map (ml_phrase_entry y) ?gs) = map (map fst) ?gs"
    by (simp add: ml_entry_indices comp_def)
  have cc: "concat (map (map fst) ?gs) = map fst ?un"
    using cat by (metis map_concat)
  from inv st have
    d0: "disjoint_lists (map m_indices (all_phrases @ pp))" and
    u0: "\<Union> (set ` set (map m_indices (all_phrases @ pp))) = used" and
    b0: "used \<subseteq> {..<length texts}" and
    x0: "list_all (boxed texts) (all_phrases @ pp)"
    by (simp_all add: ml_inv_def)
  have dn: "disjoint_lists (map (map fst) ?gs)"
    by (rule distinct_concat_disjoint) (simp add: cc un(1))
  have un_new: "\<Union> (set ` set (map (map fst) ?gs)) = fst ` set ?un"
  proof -
    have "\<Union> (set ` set (map (map fst) ?gs)) = set (concat (map (map fst) ?gs))" by simp
    then show ?thesis unfolding cc by simp
  qed
  have cross: "\<forall>a \<in> set (map m_indices (all_phrases @ pp)). \<forall>b \<in> set (map (map fst) ?gs). set a \<inter> set b = {}"
  proof (intro ballI)
    fix a b assume a: "a \<in> set (map m_indices (all_phrases @ pp))" and b: "b \<in> set (map (map fst) ?gs)"
    from a u0 have "set a \<subseteq> used" by blast
    moreover from b un_new have "set b \<subseteq> fst ` set ?un" by blast
    ultimately show "set a \<inter> set b = {}" using un(3) by blast
  qed
  have d1: "disjoint_lists (map m_indices (all_phrases @ pp) @ map (map fst) ?gs)"
    unfolding disjoint_lists_append using d0 dn cross by blast
  have u1: "\<Union> (set ` set (map m_indices (all_phrases @ pp) @ map (map fst) ?gs)) = used \<union> fst ` set ?un"
    using u0 un_new by (simp only: set_append image_Un Union_Un_distrib)
  have b1: "used \<union> fst ` set ?un \<subseteq> {..<length texts}"
    using b0 enumerate_bound [OF un(2)] by blast
  have x1: "list_all (boxed texts) (map (ml_phrase_entry y) ?gs)"
  proof -
    have "boxed texts (ml_phrase_entry y g)" if "g \<in> set ?gs" for g
    proof (rule ml_entry_boxed)
      from that ne show "g \<noteq> []" by auto
      from that have "set g \<subseteq> set (concat ?gs)" by auto
      with cat un(2) show "set g \<subseteq> set (enumerate 0 texts)" by simp
    qed
    then show ?thesis by (simp add: list_all_iff)
  qed
  have res: "ml_process_line y tol line st = (pp @ map (ml_phrase_entry y) ?gs, used \<union> fst ` set ?un)"
    unfolding st by (rule ml_process_line_eq)
  have m: "map m_indices (all_phrases @ pp @ map (ml_phrase_entry y) ?gs)
           = map m_indices (all_phrases @ pp) @ map (map fst) ?gs"
    using idx by simp
  show ?thesis
    unfolding res fst_conv snd_conv ml_inv_def m
    using d1 u1 b1 x0 x1 by simp
qed

lemma ml_lines_members:
  assumes "line \<in> set (ml_lines y used texts)"
  shows "distinct (map fst line)" "set line \<subseteq> set (enumerate 0 texts)"
proof -
  let ?R = "\<lambda>a b. y_linked (real_of_int y) (snd a) (snd b)"
  note props = chain_groups_props [of ?R "unused_items used texts"]
  from props have cat: "concat (ml_lines y used texts) = unused_items used texts"
    by (simp add: ml_lines_chain)
  have "distinct (map fst (unused_items used texts))"
    unfolding unused_items_def by (rule distinct_map_filter) (simp add: distinct_fst_enumerate)
  with cat assms show "distinct (map fst line)"
    using distinct_concat_member [of fst "ml_lines y used texts" line] by simp
  from assms have "set line \<subseteq> set (concat (ml_lines y used texts))" by auto
  then show "set line \<subseteq> set (enumerate 0 texts)"
    unfolding cat by (auto simp: unused_items_def)
qed

lemma ml_pass_inv:
  assumes "ml_inv texts st"
  shows "ml_inv texts (ml_pass tol texts y st)"
proof -
  obtain all_phrases used where st: "st = (all_phrases, used)" by (cases st)
  let ?P = "\<lambda>s. ml_inv texts (all_phrases @ fst s, snd s)"
  have "?P (fold (ml_process_line y tol) (ml_lines y used texts) ([], used))"
  proof (rule fold_invariant [where Q = "\<lambda>line. distinct (map fst line) \<and> set line \<subseteq> set (enumerate 0 texts)"])
    show "distinct (map fst line) \<and> set line \<subseteq> set (enumerate 0 texts)"
      if "line \<in> set (ml_lines y used texts)" for line
      using ml_lines_members [OF that] by simp
    show "?P ([], used)" using assms st by simp
    show "?P (ml_process_line y tol line s)"
      if "distinct (map fst line) \<and> set line \<subseteq> set (enumerate 0 texts)" "?P s" for line s
      using ml_process_line_inv [of texts all_phrases s line y tol] that by blast
  qed
  then show ?thesis
    unfolding st ml_pass_def by (simp add: case_prod_beta)
qed

lemma group_multiline_run_inv:
  "ml_inv (sorted_texts texts) (group_multiline_run texts rng tol)"
  unfolding group_multiline_run_def
proof (rule fold_invariant [where Q = "\<lambda>_. True"])
  show "ml_inv (sorted_texts texts) ([], {})"
    by (simp add: ml_inv_def disjoint_lists_def)
qed (simp_all add: ml_pass_inv)

section \<open>Disjointness, coverage and bounding boxes\<close>



lemma fold_result_invariant:
  assumes step: "\<And>a s s'. a \<in> set as \<Longrightarrow> P s \<Longrightarrow> f a s = Inr s' \<Longrightarrow> P s'"
    and "P s" "fold_result f as s = Inr s'"
  shows "P s'"
  using assms
proof (induction as arbitrary: s)
  case Nil
  then show ?case by simp
next
  case (Cons a as)
  from Cons.prems(3) obtain s1 where s1: "f a s = Inr s1" "fold_result f as s1 = Inr s'"
    by (auto split: sum.splits)
  have "P s1" using Cons.prems(1) [of a s s1] Cons.prems(2) s1(1) by simp
  moreover have "\<And>b t t'. b \<in> set as \<Longrightarrow> P t \<Longrightarrow> f b t = Inr t' \<Longrightarrow> P t'"
    using Cons.prems(1) by (meson list.set_intros(2))
  ultimately show ?case using Cons.IH [of s1] s1(2) by blast
qed

lemma am_select_cases:
  assumes "am_select llm lk c (st, pu) = Inr (st', pu')"
  shows "(page_phrases st' = page_phrases st \<and> page_used_word_indices st' = page_used_word_indices st)
       \<or> (set (c_word_indices c) \<inter> page_used_word_indices st = {} \<and>
          page_phrases st' = page_phrases st @ [c] \<and>
          page_used_word_indices st' = page_used_word_indices st \<union> set (c_word_indices c))"
  using assms
  by (auto simp: am_select_def Let_def list_ex_iff split: if_splits option.splits sum.splits)




lemma fold_result_total:
  assumes "\<And>a s. \<exists>s'. f a s = Inr s'"
  shows "\<exists>s'. fold_result f as s = Inr s'"
proof (induction as arbitrary: s)
  case Nil
  then show ?case by simp
next
  case (Cons a as)
  from assms obtain s1 where "f a s = Inr s1" by blast
  with Cons.IH [of s1] show ?case by simp
qed

lemma am_select_total:
  assumes "\<And>s. \<exists>d. llm s = Inr d"
  shows "\<exists>r. am_select llm lk c sp = Inr r"
proof -
  obtain st pu where sp: "sp = (st, pu)" by (cases sp)
  from assms obtain d where d: "llm (c_phrase c) = Inr d" by blast
  show ?thesis
    unfolding sp am_select_def Let_def
    by (cases "llm_cache st (c_phrase c)") (simp_all add: d)
qed

text \<open>
  A page run ends without an exception whenever the classifier call does not raise.
\<close>

lemma am_page_passes_total:
  assumes "\<And>s. \<exists>d. llm s = Inr d"
  shows "\<exists>st. am_page_passes runion llm lk words st0 = Inr st"
  unfolding am_page_passes_def
proof (rule fold_result_total)
  fix y st
  from fold_result_total [of "am_select llm lk", OF am_select_total [of llm, OF assms]]
  obtain r where "fold_result (am_select llm lk) (potential_phrases runion words y) (st, {}) = Inr r"
    by blast
  then show "\<exists>s'. am_pass runion llm lk words y st = Inr s'"
    by (cases r) (simp add: am_pass_def)
qed












text \<open>
  Claim C8 as stated does not hold for the server's phrases.  \<^verbatim>\<open>MECH\<close> at \<open>y\<close> = 5 and \<^verbatim>\<open>RM\<close>
  at \<open>y\<close> = 0 form one phrase under \<open>y_tolerance\<close> 10; its \<open>y\<close> is 5, the \<open>y\<close> of its
  leftmost word, not the least \<open>y\<close> of its words, and it has neither width nor height.
\<close>

theorem server_phrase_not_boxed:
  "group_texts_into_phrases [mech_w, rm_w] 10 100
     = Inr [\<lparr>t_text = ''MECH RM'', t_confidence = 90, t_x = 0, t_y = 5, t_width = None,
              t_height = None, t_display_x = Some 0, t_display_y = Some 5, t_word_count = 2\<rparr>]
   \<and> min (t_y mech_w) (t_y rm_w) = 0"
  by code_simp


lemma sorted_hd_Min:
  assumes "g \<noteq> []" "sorted (map f g)"
  shows "f (hd g) = Min (f ` set g)"
proof -
  from assms(1) obtain a rest where g: "g = a # rest" by (cases g) auto
  with assms(2) have "\<forall>b \<in> set rest. f a \<le> f b" by simp
  then have "Min (f ` set (a # rest)) = f a"
    by (intro Min_eqI) auto
  then show ?thesis by (simp add: g)
qed

lemma sorted_concat_member:
  "sorted (map f (concat gs)) \<Longrightarrow> g \<in> set gs \<Longrightarrow> sorted (map f g)"
  by (induction gs) (auto simp: sorted_append)

lemma line_phrases_anchored_min:
  assumes "line \<noteq> []"
  shows "\<exists>ps. line_phrases tol line = Inr ps \<and>
           (\<exists>gs. phrase_groups_of tol (sort_key t_x line) = Inr gs \<and> list_all2 anchored_min gs ps)"
proof -
  from line_phrases_ok [OF assms, of tol] obtain gs ps where
    pg: "phrase_groups_of tol (sort_key t_x line) = Inr gs" and
    gs: "gs = chain_groups (x_linked tol) (sort_key t_x line)" and
    lp: "line_phrases tol line = Inr ps" and
    an: "list_all2 anchored gs ps" by blast
  from chain_groups_props [of "x_linked tol" "sort_key t_x line", folded gs]
  have cat: "concat gs = sort_key t_x line" by simp
  have so: "sorted (map t_x (concat gs))" unfolding cat by simp
  have "list_all2 anchored_min gs ps"
  proof (rule list_all2_all_nthI)
    show "length gs = length ps" using an by (rule list_all2_lengthD)
    fix n assume n: "n < length gs"
    from list_all2_nthD [OF an n] have a: "anchored (gs ! n) (ps ! n)" .
    then have ne: "gs ! n \<noteq> []" and x: "t_x (ps ! n) = t_x (hd (gs ! n))"
      by (simp_all add: anchored_def)
    from n have "gs ! n \<in> set gs" by simp
    from sorted_concat_member [OF so this] have "sorted (map t_x (gs ! n))" .
    from sorted_hd_Min [OF ne this] x a show "anchored_min (gs ! n) (ps ! n)"
      by (simp add: anchored_min_def)
  qed
  with pg lp show ?thesis by blast
qed

lemma group_texts_into_phrases_anchored:
  "\<exists>pss. group_texts_into_phrases texts y tol = Inr (concat pss) \<and>
     list_all2 (\<lambda>line ps. \<exists>gs. phrase_groups_of tol (sort_key t_x line) = Inr gs \<and>
                                list_all2 anchored_min gs ps)
       (group_lines y (sorted_texts texts)) pss"
proof (cases "texts = []")
  case True
  then have "group_lines y (sorted_texts texts) = []"
    by (simp add: group_lines_def sorted_texts_def flush_def)
  with True show ?thesis by (simp add: group_texts_into_phrases_def)
next
  case False
  let ?lines = "group_lines y (sorted_texts texts)"
  let ?R = "\<lambda>line ps. \<exists>gs. phrase_groups_of tol (sort_key t_x line) = Inr gs \<and> list_all2 anchored_min gs ps"
  have ne: "[] \<notin> set ?lines"
    using chain_groups_props [of "y_linked y" "sorted_texts texts"] by (simp add: group_lines_chain)
  have "\<exists>ps. line_phrases tol line = Inr ps \<and> ?R line ps" if "line \<in> set ?lines" for line
  proof -
    from that ne have "line \<noteq> []" by auto
    then show ?thesis by (rule line_phrases_anchored_min)
  qed
  from map_result_Inr [of ?lines "line_phrases tol" ?R, OF this]
  obtain pss where "map_result (line_phrases tol) ?lines = Inr pss" "list_all2 ?R ?lines pss"
    by blast
  with False show ?thesis
    by (auto simp add: group_texts_into_phrases_def sorted_texts_def)
qed

text \<open>
  Claim C8, amended.  Every phrase of \<^verbatim>\<open>group_multiline_texts\<close> has the hull of its member
  words as its rectangle: \<open>x\<close> and \<open>y\<close> are the least \<open>x\<close> and \<open>y\<close> of the members, and
  \<open>x\<close> + width and \<open>y\<close> + height are the greatest \<open>x\<close> + width and \<open>y\<close> + height of the
  members.  Every phrase of the server's \<^verbatim>\<open>group_texts_into_phrases\<close> (which never fails)
  records a position only: its \<open>x\<close> is the least \<open>x\<close> of its group, its \<open>y\<close> is the \<open>y\<close> of the
  leftmost word of its group, and it has no extent.
\<close>

theorem phrase_boxes:
  "(\<forall>p \<in> set (group_multiline_texts texts y_tolerance_range x_tolerance).
      boxed (sorted_texts texts) p)
   \<and> (\<exists>pss. group_texts_into_phrases stexts y_tol x_tol = Inr (concat pss) \<and>
        list_all2 (\<lambda>line ps. \<exists>gs. phrase_groups_of x_tol (sort_key t_x line) = Inr gs \<and>
                                   list_all2 anchored_min gs ps)
          (group_lines y_tol (sorted_texts stexts)) pss)"
proof -
  from group_multiline_run_inv [of texts y_tolerance_range x_tolerance]
  have "list_all (boxed (sorted_texts texts)) (group_multiline_texts texts y_tolerance_range x_tolerance)"
    by (simp add: ml_inv_def group_multiline_texts_def)
  then have "\<forall>p \<in> set (group_multiline_texts texts y_tolerance_range x_tolerance).
      boxed (sorted_texts texts) p"
    by (simp add: list_all_iff)
  with group_texts_into_phrases_anchored [of stexts y_tol x_tol] show ?thesis
    by blast
qed

text \<open>The amended C8 on the three words: \<^verbatim>\<open>BOILER RM\<close> spans 10 to 80.\<close>

theorem phrase_boxes_witness:
  "map t_text (group_multiline_texts three_texts (10, 1) 50) = [''BOILER RM'', ''T101'']
   \<and> boxed (sorted_texts three_texts) (hd (group_multiline_texts three_texts (10, 1) 50))
   \<and> t_x (hd (group_multiline_texts three_texts (10, 1) 50)) = 10
   \<and> t_width (hd (group_multiline_texts three_texts (10, 1) 50)) = Some 70
   \<and> t_height (hd (group_multiline_texts three_texts (10, 1) 50)) = Some 8"
proof -
  let ?ps = "group_multiline_texts three_texts (10, 1) 50"
  have a: "map t_text ?ps = [''BOILER RM'', ''T101'']" by code_simp
  then have "?ps \<noteq> []" by auto
  then have "hd ?ps \<in> set ?ps" by simp
  with phrase_boxes [of three_texts "(10, 1)" 50 "[] :: ocr_text list" 10 50]
  have b: "boxed (sorted_texts three_texts) (hd ?ps)" by blast
  have c: "t_x (hd ?ps) = 10" by code_simp
  have d: "t_width (hd ?ps) = Some 70" by code_simp
  have e: "t_height (hd ?ps) = Some 8" by code_simp
  show ?thesis by (intro conjI a b c d e)
qed

section \<open>Candidate phrases of Automapper.py\<close>





lemma am_lines_chain: "am_lines y words = chain_groups (w_linked y) words"
proof -
  have "am_line_step y = chain_step (w_linked y)"
    by (auto simp: fun_eq_iff am_line_step_def chain_step_def w_linked_def)
  then show ?thesis by (simp add: am_lines_def chain_groups_def)
qed

lemma index_of_Some:
  "a \<in> set xs \<Longrightarrow> \<exists>k. index_of a xs = Some k \<and> k < length xs \<and> xs ! k = a"
  by (induction xs) auto

lemma candidate_indices:
  assumes "set run \<subseteq> set words"
  shows "map (\<lambda>k. words ! k)
           (concat (map (\<lambda>w. case index_of w words of None \<Rightarrow> [] | Some k \<Rightarrow> [k]) run)) = run
       \<and> set (concat (map (\<lambda>w. case index_of w words of None \<Rightarrow> [] | Some k \<Rightarrow> [k]) run))
           \<subseteq> {..<length words}"
  using assms
proof (induction run)
  case Nil
  then show ?case by simp
next
  case (Cons w run)
  then have "w \<in> set words" by simp
  from index_of_Some [OF this] obtain k where "index_of w words = Some k" "k < length words" "words ! k = w"
    by blast
  with Cons show ?case by simp
qed

lemma take_drop_nth_map:
  "i + n \<le> length xs \<Longrightarrow> map (\<lambda>j. xs ! j) [i ..< i + n] = take n (drop i xs)"
  by (rule nth_equalityI) auto

lemma am_candidate_well_formed:
  assumes idx: "line_idx < length (am_lines y words)"
    and line: "line = sort_key w_x0 (am_lines y words ! line_idx)"
    and n: "1 \<le> n" "n \<le> min 5 (length line)" and i: "i + n \<le> length line"
  shows "well_formed words y (am_candidate runion words line_idx line i n)"
proof -
  let ?c = "am_candidate runion words line_idx line i n"
  let ?run = "take n (drop i line)"
  have sel: "c_length ?c = n" "c_line_index ?c = line_idx" "c_position_in_line ?c = i"
    "c_phrase ?c = join_sp (take n (drop i (map w_text line)))"
    "c_word_indices ?c = concat (map (\<lambda>j. case index_of (line ! j) words of None \<Rightarrow> [] | Some k \<Rightarrow> [k]) [i ..< i + n])"
    by (simp_all add: am_candidate_def)
  have "am_lines y words ! line_idx \<in> set (am_lines y words)" using idx by simp
  then have "set (am_lines y words ! line_idx) \<subseteq> set (concat (am_lines y words))" by auto
  also have "concat (am_lines y words) = words"
    using chain_groups_props [of "w_linked y" words] by (simp add: am_lines_chain)
  finally have sub: "set line \<subseteq> set words" by (simp add: line)
  have "set ?run \<subseteq> set line" by (meson set_take_subset set_drop_subset subset_trans)
  with sub have rsub: "set ?run \<subseteq> set words" by simp
  have idxs: "c_word_indices ?c = concat (map (\<lambda>w. case index_of w words of None \<Rightarrow> [] | Some k \<Rightarrow> [k]) ?run)"
    unfolding sel take_drop_nth_map [OF i, symmetric] by (simp add: comp_def)
  have ph: "c_phrase ?c = join_sp (map w_text ?run)"
    unfolding sel by (simp add: take_map drop_map)
  have len: "length ?run = n" using i by simp
  from candidate_indices [OF rsub] have
    "map (\<lambda>k. words ! k) (c_word_indices ?c) = ?run" "set (c_word_indices ?c) \<subseteq> {..<length words}"
    unfolding idxs by blast+
  with n i idx ph len show ?thesis
    unfolding well_formed_def Let_def sel line [symmetric] by simp
qed

lemma line_candidates_well_formed:
  assumes "line_idx < length (am_lines y words)"
    and "c \<in> set (line_candidates runion words line_idx (am_lines y words ! line_idx))"
  shows "well_formed words y c"
proof -
  let ?line = "sort_key w_x0 (am_lines y words ! line_idx)"
  from assms(2) obtain n i where
    n: "n \<in> set [1 ..< min 5 (length ?line) + 1]" and
    i: "i \<in> set [0 ..< length ?line - n + 1]" and
    c: "c = am_candidate runion words line_idx ?line i n"
    unfolding line_candidates_def Let_def by (auto simp del: upt_Suc)
  from n have n1: "1 \<le> n" and n5: "n \<le> min 5 (length ?line)" by auto
  from i n5 have "i + n \<le> length ?line" by auto
  from am_candidate_well_formed [OF assms(1) refl n1 n5 this] c show ?thesis by simp
qed

lemma potential_phrases_well_formed:
  assumes "c \<in> set (potential_phrases runion words y)"
  shows "well_formed words y c"
proof -
  from assms have "c \<in> set (unsorted_phrases runion words y)"
    by (simp add: potential_phrases_def)
  then obtain il where il: "il \<in> set (enumerate 0 (am_lines y words))"
    and c: "c \<in> set (line_candidates runion words (fst il) (snd il))"
    unfolding unsorted_phrases_def by auto
  from il have "fst il < length (am_lines y words)" "snd il = am_lines y words ! fst il"
    by (auto simp: in_set_enumerate_eq)
  with c line_candidates_well_formed show ?thesis by metis
qed


lemma am_select_cache:
  assumes "am_select llm lk c (st, pu) = Inr (st', pu')"
  shows "dom (llm_cache st') \<subseteq> insert (c_phrase c) (dom (llm_cache st))"
  using assms
  by (auto simp: am_select_def Let_def split: if_splits option.splits sum.splits)

lemma am_select_from:
  assumes "c \<in> C" "from_candidates C st0 st" "am_select llm lk c (st, pu) = Inr (st', pu')"
  shows "from_candidates C st0 st'"
proof -
  from am_select_cases [OF assms(3)] have "set (page_phrases st') \<subseteq> insert c (set (page_phrases st))"
    by auto
  with assms(1,2) have 1: "set (page_phrases st') \<subseteq> C" by (auto simp: from_candidates_def)
  from am_select_cache [OF assms(3)] assms(1,2)
  have 2: "dom (llm_cache st') \<subseteq> dom (llm_cache st0) \<union> c_phrase ` C"
    unfolding from_candidates_def by blast
  from 1 2 show ?thesis by (simp add: from_candidates_def)
qed

lemma am_pass_from:
  assumes "set (potential_phrases runion words y) \<subseteq> C" "from_candidates C st0 st"
    "am_pass runion llm lk words y st = Inr st'"
  shows "from_candidates C st0 st'"
proof -
  from assms(3) obtain pu' where
    f: "fold_result (am_select llm lk) (potential_phrases runion words y) (st, {}) = Inr (st', pu')"
    by (auto simp: am_pass_def split: sum.splits)
  have "from_candidates C st0 (fst (st', pu'))"
  proof (rule fold_result_invariant [where P = "\<lambda>sp. from_candidates C st0 (fst sp)", OF _ _ f])
    show "from_candidates C st0 (fst (st, {}))" using assms(2) by simp
    show "from_candidates C st0 (fst s')"
      if "a \<in> set (potential_phrases runion words y)" "from_candidates C st0 (fst s)"
        "am_select llm lk a s = Inr s'" for a s s'
      using am_select_from [of a C st0 "fst s" llm lk "snd s" "fst s'" "snd s'"] that assms(1) by auto
  qed
  then show ?thesis by simp
qed

lemma am_page_from:
  assumes "am_page_passes runion llm lk words st0 = Inr st"
  shows "from_candidates (all_candidates runion words) st0 st"
proof (rule fold_result_invariant
    [where P = "from_candidates (all_candidates runion words) st0",
      OF _ _ assms [unfolded am_page_passes_def]])
  show "from_candidates (all_candidates runion words) st0
          (st0\<lparr>page_phrases := [], page_used_word_indices := {}\<rparr>)"
    by (simp add: from_candidates_def)
  show "from_candidates (all_candidates runion words) st0 s'"
    if "a \<in> set (range_down 10 1)" "from_candidates (all_candidates runion words) st0 s"
      "am_pass runion llm lk words a s = Inr s'" for a s s'
  proof (rule am_pass_from [OF _ that(2,3)])
    show "set (potential_phrases runion words a) \<subseteq> all_candidates runion words"
      using that(1) by (auto simp: all_candidates_def)
  qed
qed

text \<open>
  Claim C10.  Every candidate phrase of a pass consists of between 1 and 5 consecutive words
  of one line (sorted left to right), and of no more words than \<open>min 5\<close> of the line's length;
  every phrase annotated on a page, and every phrase that enters the classifier cache during
  the page, is such a candidate of one of the ten passes.
\<close>

theorem phrase_length_cap:
  "(\<forall>c \<in> set (potential_phrases runion words y_tolerance). well_formed words y_tolerance c)
   \<and> (am_page_passes runion llm location_key words st0 = Inr st \<longrightarrow>
        (\<forall>c \<in> set (page_phrases st).
           \<exists>y \<in> set (range_down 10 1). c \<in> set (potential_phrases runion words y)
              \<and> well_formed words y c) \<and>
        (\<forall>s \<in> dom (llm_cache st) - dom (llm_cache st0).
           \<exists>y \<in> set (range_down 10 1). \<exists>c \<in> set (potential_phrases runion words y).
              s = c_phrase c \<and> well_formed words y c))"
proof -
  have 1: "\<forall>c \<in> set (potential_phrases runion words y_tolerance). well_formed words y_tolerance c"
    using potential_phrases_well_formed by blast
  have 2: "(\<forall>c \<in> set (page_phrases st).
           \<exists>y \<in> set (range_down 10 1). c \<in> set (potential_phrases runion words y)
              \<and> well_formed words y c) \<and>
        (\<forall>s \<in> dom (llm_cache st) - dom (llm_cache st0).
           \<exists>y \<in> set (range_down 10 1). \<exists>c \<in> set (potential_phrases runion words y).
              s = c_phrase c \<and> well_formed words y c)"
    if "am_page_passes runion llm location_key words st0 = Inr st"
  proof -
    from am_page_from [OF that] have
      a: "set (page_phrases st) \<subseteq> all_candidates runion words" and
      b: "dom (llm_cache st) \<subseteq> dom (llm_cache st0) \<union> c_phrase ` all_candidates runion words"
      by (simp_all add: from_candidates_def)
    have c: "\<exists>y \<in> set (range_down 10 1). c \<in> set (potential_phrases runion words y) \<and> well_formed words y c"
      if "c \<in> all_candidates runion words" for c
      using that potential_phrases_well_formed unfolding all_candidates_def by blast
    from a c have A: "\<forall>c \<in> set (page_phrases st).
           \<exists>y \<in> set (range_down 10 1). c \<in> set (potential_phrases runion words y)
              \<and> well_formed words y c" by blast
    have B: "\<exists>y \<in> set (range_down 10 1). \<exists>c \<in> set (potential_phrases runion words y).
              s = c_phrase c \<and> well_formed words y c"
      if "s \<in> dom (llm_cache st) - dom (llm_cache st0)" for s
    proof -
      from that b obtain c where "c \<in> all_candidates runion words" "s = c_phrase c" by blast
      with c show ?thesis by blast
    qed
    from A B show ?thesis by blast
  qed
  from 1 2 show ?thesis by blast
qed

text \<open>
  The statement of C10 on a line of six words: twenty candidates, the longest of five words,
  and the phrase annotated is the first five words.
\<close>

theorem phrase_length_cap_witness:
  "am_lines 10 six_words = [six_words]
   \<and> length (potential_phrases rect_hull six_words 10) = 20
   \<and> list_all (well_formed six_words 10) (potential_phrases rect_hull six_words 10)
   \<and> fold max (map c_length (potential_phrases rect_hull six_words 10)) 0 = 5
   \<and> am_page_passes rect_hull unknown_llm band_key six_words fresh_state
       = Inr (projr (am_page_passes rect_hull unknown_llm band_key six_words fresh_state))
   \<and> map c_phrase
        (page_phrases (projr (am_page_passes rect_hull unknown_llm band_key six_words fresh_state)))
       = [''A B C D E'']
   \<and> list_all (\<lambda>c. list_ex (\<lambda>y. well_formed six_words y c) (range_down 10 1))
        (page_phrases (projr (am_page_passes rect_hull unknown_llm band_key six_words fresh_state)))"
proof -
  let ?X = "am_page_passes rect_hull unknown_llm band_key six_words fresh_state"
  have a: "am_lines 10 six_words = [six_words]" by code_simp
  have b: "length (potential_phrases rect_hull six_words 10) = 20" by code_simp
  have m: "fold max (map c_length (potential_phrases rect_hull six_words 10)) 0 = 5" by code_simp
  have e: "map_sum id (\<lambda>st. map c_phrase (page_phrases st)) ?X = Inr [''A B C D E'']"
    by code_simp
  then have x: "?X = Inr (projr ?X)" by (cases ?X) simp_all
  from e x have p: "map c_phrase (page_phrases (projr ?X)) = [''A B C D E'']"
    by (cases ?X; simp)
  note cap = phrase_length_cap [of rect_hull six_words 10 unknown_llm band_key fresh_state "projr ?X"]
  from cap have c: "list_all (well_formed six_words 10) (potential_phrases rect_hull six_words 10)"
    unfolding list_all_iff by (rule conjunct1)
  from cap [THEN conjunct2, rule_format, OF x, THEN conjunct1]
  have "\<forall>c \<in> set (page_phrases (projr ?X)). \<exists>y \<in> set (range_down 10 1). well_formed six_words y c"
    by blast
  then have d: "list_all (\<lambda>c. list_ex (\<lambda>y. well_formed six_words y c) (range_down 10 1))
        (page_phrases (projr ?X))"
    by (simp add: list_all_iff list_ex_iff)
  show ?thesis by (intro conjI a b c m x p d)
qed

section \<open>Properties of the multiline joiner\<close>







section \<open>Properties of the classifier call\<close>

lemma query_attempts_all_failed:
  "(\<forall>k \<in> set as. world k = RequestFailed) \<Longrightarrow>
   query_attempts config txt json_loads world as tr =
     (Inr (unknown_reply txt),
      tr\<lparr>debug_log := debug_log tr @ map (\<lambda>k. LogRequestFailed (k + 1) (max_retries config)) as
                         @ [LogAllFailed txt],
         sleeps := sleeps tr @ map (\<lambda>k. retry_delay config)
                                  (filter (\<lambda>k. int k < max_retries config - 1) as)\<rparr>)"
  by (induction as arbitrary: tr) simp_all

lemma filter_less_upt: "filter (\<lambda>k. k < m) [0 ..< n] = [0 ..< min m n]"
proof (induction n)
  case 0
  then show ?case by simp
next
  case (Suc n)
  show ?case
  proof (cases "n < m")
    case True
    then have "min m (Suc n) = Suc (min m n)" by simp
    with Suc True show ?thesis by simp
  next
    case False
    then have "min m (Suc n) = min m n" by simp
    with Suc False show ?thesis by simp
  qed
qed

text \<open>
  When every attempt fails with a request exception the function returns the fallback with
  the text unchanged, after \<open>max_retries\<close> attempts and a sleep of \<open>retry_delay\<close> between two
  attempts.
\<close>

lemma query_llm_exhausted:
  assumes "\<forall>k < nat (max_retries config). world k = RequestFailed"
  shows "fst (query_llm config txt json_loads world tr) = Inr (unknown_reply txt)"
    and "length (sleeps (snd (query_llm config txt json_loads world tr)))
           = length (sleeps tr) + (nat (max_retries config) - 1)"
    and "set (sleeps (snd (query_llm config txt json_loads world tr)))
           \<subseteq> set (sleeps tr) \<union> {retry_delay config}"
proof -
  have all: "\<forall>k \<in> set [0 ..< nat (max_retries config)]. world k = RequestFailed"
    using assms by simp
  have eq: "query_llm config txt json_loads world tr =
     (Inr (unknown_reply txt),
      tr\<lparr>debug_log := debug_log tr
           @ map (\<lambda>k. LogRequestFailed (k + 1) (max_retries config)) [0 ..< nat (max_retries config)]
           @ [LogAllFailed txt],
         sleeps := sleeps tr @ map (\<lambda>k. retry_delay config)
           (filter (\<lambda>k. int k < max_retries config - 1) [0 ..< nat (max_retries config)])\<rparr>)"
    unfolding query_llm_def using all by (rule query_attempts_all_failed)
  show "fst (query_llm config txt json_loads world tr) = Inr (unknown_reply txt)"
    unfolding eq by simp
  have f: "filter (\<lambda>k. int k < max_retries config - 1) [0 ..< nat (max_retries config)]
           = [0 ..< nat (max_retries config) - 1]"
  proof -
    have "filter (\<lambda>k. int k < max_retries config - 1) [0 ..< nat (max_retries config)]
          = filter (\<lambda>k. k < nat (max_retries config) - 1) [0 ..< nat (max_retries config)]"
      by (rule filter_cong) auto
    also have "\<dots> = [0 ..< nat (max_retries config) - 1]"
      by (simp add: filter_less_upt min_def)
    finally show ?thesis .
  qed
  show "length (sleeps (snd (query_llm config txt json_loads world tr)))
           = length (sleeps tr) + (nat (max_retries config) - 1)"
    unfolding eq f by simp
  show "set (sleeps (snd (query_llm config txt json_loads world tr)))
           \<subseteq> set (sleeps tr) \<union> {retry_delay config}"
    unfolding eq by auto
qed

text \<open>
  Claim C9 fails on the code.  A reply that decodes but has no choices, or a message whose
  content is \<^verbatim>\<open>null\<close>, makes the first attempt raise (\<^verbatim>\<open>IndexError\<close>, \<^verbatim>\<open>TypeError\<close>): neither is a
  \<^verbatim>\<open>RequestException\<close> or a \<^verbatim>\<open>JSONDecodeError\<close>, so the exception leaves \<^verbatim>\<open>query_llm\<close> without a
  retry and without the fallback.
\<close>

theorem query_llm_raises:
  "query_llm default_config ''EXIT'' no_parse (\<lambda>k. Responded empty_choices) empty_trace
     = (Inl IndexError, empty_trace)
   \<and> query_llm default_config ''EXIT'' no_parse (\<lambda>k. Responded null_content) empty_trace
     = (Inl TypeError, empty_trace)"
  by (simp add: query_llm_def default_config_def handle_response_def py_get_def py_index0_def
      empty_choices_def null_content_def upt_conv_Cons)

end
